theory Spec2Isabelle
  imports Main
begin

section \<open>Text as sequences of Unicode code points\<close>

text \<open>
  A Python \<open>str\<close> is a sequence of Unicode code points, and the program works on Persian
  text, so a character is modelled by its code point and a string by a list of them.
  \<open>ustr\<close> turns an ASCII literal into such a string.
\<close>

type_synonym uchar = nat
type_synonym ustring = "uchar list"

definition ustr :: "string \<Rightarrow> ustring" where
  "ustr s = map of_char s"

abbreviation tatweel :: uchar where "tatweel \<equiv> 1600"
abbreviation hyphen :: uchar where "hyphen \<equiv> 45"
abbreviation underscore :: uchar where "underscore \<equiv> 95"
abbreviation period :: uchar where "period \<equiv> 46"
abbreviation persian_comma :: uchar where "persian_comma \<equiv> 1548"
abbreviation colon :: uchar where "colon \<equiv> 58"
abbreviation space :: uchar where "space \<equiv> 32"

text \<open>
  The class \<open>\s\<close> of a \<open>str\<close> pattern and the characters removed by \<open>str.strip()\<close> are
  both CPython's \<open>Py_UNICODE_ISSPACE\<close>: the ASCII characters 9 to 13 and 28 to 32, and
  U+0085, U+00A0, U+1680, U+2000 to U+200A, U+2028, U+2029, U+202F, U+205F, U+3000.
\<close>

definition is_space :: "uchar \<Rightarrow> bool" where
  "is_space c \<longleftrightarrow>
     (9 \<le> c \<and> c \<le> 13) \<or> (28 \<le> c \<and> c \<le> 32) \<or> c = 133 \<or> c = 160 \<or> c = 5760 \<or>
     (8192 \<le> c \<and> c \<le> 8202) \<or> c = 8232 \<or> c = 8233 \<or> c = 8239 \<or> c = 8287 \<or> c = 12288"

text \<open>
  The class \<open>\w\<close> of a \<open>str\<close> pattern is "alphanumeric in the Unicode database, or the
  underscore". The database is not part of the repository: it is the parameter
  \<open>isalnum\<close> of everything below.
\<close>

definition is_word :: "(uchar \<Rightarrow> bool) \<Rightarrow> uchar \<Rightarrow> bool" where
  "is_word isalnum c \<longleftrightarrow> isalnum c \<or> c = underscore"

section \<open>The regular-expression substitutions and string operations used\<close>

text \<open>
  \<open>re.sub\<close> with a pattern that is one character class replaces every character of the
  class by the replacement; with a class followed by \<open>+\<close> it replaces every maximal run
  of characters of the class (leftmost, greedy, non-overlapping matches).
\<close>

fun sub_class :: "(uchar \<Rightarrow> bool) \<Rightarrow> ustring \<Rightarrow> ustring \<Rightarrow> ustring" where
  "sub_class P repl [] = []"
| "sub_class P repl (c # cs) =
     (if P c then repl @ sub_class P repl cs else c # sub_class P repl cs)"

function sub_class_plus :: "(uchar \<Rightarrow> bool) \<Rightarrow> ustring \<Rightarrow> ustring \<Rightarrow> ustring" where
  "sub_class_plus P repl [] = []"
| "sub_class_plus P repl (c # cs) =
     (if P c then repl @ sub_class_plus P repl (dropWhile P cs)
      else c # sub_class_plus P repl cs)"
  by pat_completeness auto
termination
  by (relation "measure (\<lambda>(P, repl, s). length s)")
     (auto simp: less_Suc_eq_le length_dropWhile_le)

text \<open>\<open>sep.join(tokens)\<close>.\<close>

fun join :: "ustring \<Rightarrow> ustring list \<Rightarrow> ustring" where
  "join sep [] = []"
| "join sep [t] = t"
| "join sep (t # ts) = t @ sep @ join sep ts"

text \<open>\<open>s.strip()\<close>: whitespace is removed from both ends.\<close>

definition strip :: "ustring \<Rightarrow> ustring" where
  "strip s = rev (dropWhile is_space (rev (dropWhile is_space s)))"

section \<open>The Normalizer: \<open>clean_persian_text\<close>\<close>

text \<open>The exceptions that can travel through the program, with the path they are about.\<close>

datatype error =
    TokenizerError
  | ReadError ustring
  | WriteError ustring
  | RemoveError ustring
  | MakedirsError ustring
  | ListdirError ustring

text \<open>
  The tokenizer \<open>nlp\<close> is an external model: a parameter that maps a text to a document,
  a list of sentences, each a list of token texts, or raises. The two nested loops of
  the source append the token texts in order, which is \<open>concat\<close>.
\<close>

type_synonym tokenizer = "ustring \<Rightarrow> error + ustring list list"

definition strip_chars :: "uchar \<Rightarrow> bool" where
  "strip_chars c \<longleftrightarrow> c = tatweel \<or> c = hyphen \<or> c = underscore"

definition not_allowed :: "(uchar \<Rightarrow> bool) \<Rightarrow> uchar \<Rightarrow> bool" where
  "not_allowed isalnum c \<longleftrightarrow>
     \<not> (is_word isalnum c \<or> is_space c \<or> c = period \<or> c = persian_comma \<or> c = colon)"

text \<open>Lines 29 to 36 of the source, on the joined text.\<close>

definition clean_joined :: "(uchar \<Rightarrow> bool) \<Rightarrow> ustring \<Rightarrow> ustring" where
  "clean_joined isalnum tokenized_text =
     (let text_no_special = sub_class_plus strip_chars [] tokenized_text;
          cleaned_text = sub_class (not_allowed isalnum) [] text_no_special;
          cleaned_text = strip (sub_class_plus is_space [space] cleaned_text)
      in cleaned_text)"

text \<open>Lines 26 to 36: the transform of a token sequence.\<close>

definition normalize_tokens :: "(uchar \<Rightarrow> bool) \<Rightarrow> ustring list \<Rightarrow> ustring" where
  "normalize_tokens isalnum tokens = clean_joined isalnum (join [space] tokens)"

definition clean_persian_text :: "(uchar \<Rightarrow> bool) \<Rightarrow> tokenizer \<Rightarrow> ustring \<Rightarrow> error + ustring" where
  "clean_persian_text isalnum nlp text =
     (case nlp text of
        Inl e \<Rightarrow> Inl e
      | Inr doc \<Rightarrow> Inr (normalize_tokens isalnum (concat doc)))"


text \<open>The whitespace shape of a cleaned text: no two neighbouring whitespace characters.\<close>

fun no_adjacent_space :: "ustring \<Rightarrow> bool" where
  "no_adjacent_space (a # b # cs) \<longleftrightarrow>
     \<not> (is_space a \<and> is_space b) \<and> no_adjacent_space (b # cs)"
| "no_adjacent_space _ \<longleftrightarrow> True"

section \<open>The Diff Reporter: \<open>show_differences\<close>\<close>

text \<open>
  \<open>str.splitlines()\<close> splits at line feed, carriage return (with a following line feed
  as one boundary), vertical tab, form feed, the separators 28 to 30, U+0085, U+2028
  and U+2029; a text that ends with a boundary has no empty last line.
\<close>

definition is_linebreak :: "uchar \<Rightarrow> bool" where
  "is_linebreak c \<longleftrightarrow>
     (10 \<le> c \<and> c \<le> 13) \<or> (28 \<le> c \<and> c \<le> 30) \<or> c = 133 \<or> c = 8232 \<or> c = 8233"

function splitlines_from :: "ustring \<Rightarrow> ustring \<Rightarrow> ustring list" where
  "splitlines_from cur [] = (if cur = [] then [] else [cur])"
| "splitlines_from cur (c # cs) =
     (if c = 13 \<and> cs \<noteq> [] \<and> hd cs = 10 then cur # splitlines_from [] (tl cs)
      else if is_linebreak c then cur # splitlines_from [] cs
      else splitlines_from (cur @ [c]) cs)"
  by pat_completeness auto
termination
  by (relation "measure (\<lambda>(cur, s). length s)") auto

definition splitlines :: "ustring \<Rightarrow> ustring list" where
  "splitlines s = splitlines_from [] s"

definition startswith :: "ustring \<Rightarrow> ustring \<Rightarrow> bool" where
  "startswith p s \<longleftrightarrow> take (length p) s = p"

definition endswith :: "ustring \<Rightarrow> ustring \<Rightarrow> bool" where
  "endswith suffix s \<longleftrightarrow>
     length suffix \<le> length s \<and> drop (length s - length suffix) s = suffix"

text \<open>The decimal digits of a number, as an f-string prints it.\<close>

fun str_nat :: "nat \<Rightarrow> ustring" where
  "str_nat n = (if n < 10 then [48 + n] else str_nat (n div 10) @ [48 + n mod 10])"

declare str_nat.simps [simp del]

text \<open>
  \<open>difflib.ndiff\<close> is a library function: a parameter that maps two lists of lines to
  the list of lines of the edit script.
\<close>

type_synonym differ = "ustring list \<Rightarrow> ustring list \<Rightarrow> ustring list"

definition is_marker :: "ustring \<Rightarrow> bool" where
  "is_marker line \<longleftrightarrow> startswith (ustr ''- '') line \<or> startswith (ustr ''+ '') line"

text \<open>
  The loop \<open>for i, line in enumerate(diff, 1)\<close>; the result is the list of the lines
  printed, in order.
\<close>

fun print_diff :: "nat \<Rightarrow> ustring list \<Rightarrow> ustring list" where
  "print_diff i [] = []"
| "print_diff i (line # rest) =
     (if is_marker line
      then (ustr ''Line '' @ str_nat i @ ustr '': '' @ line) # print_diff (Suc i) rest
      else print_diff (Suc i) rest)"

definition show_differences :: "differ \<Rightarrow> ustring \<Rightarrow> ustring \<Rightarrow> ustring list" where
  "show_differences ndiff original_text cleaned_text =
     (let original_lines = splitlines original_text;
          cleaned_lines = splitlines cleaned_text;
          cleaned_lines = (if cleaned_lines = [] then [cleaned_text] else cleaned_lines);
          diff = ndiff original_lines cleaned_lines
      in ustr ''Differences between original and cleaned text:'' # print_diff 1 diff)"

section \<open>The file system and the batch run\<close>

text \<open>
  The outside world is a record of parameters: the Unicode database, the tokenizer
  and the diff library, and for each path whether reading it, writing it or removing
  it fails. A failed write either fails at \<open>open\<close>, which leaves the file system as it
  was, or later, which leaves the opened (so truncated) file with some content.
\<close>

type_synonym path = ustring

datatype write_failure = OpenFails | WriteFails ustring

record env =
  isalnum :: "uchar \<Rightarrow> bool"
  nlp :: tokenizer
  ndiff :: differ
  read_fails :: "path \<Rightarrow> bool"
  write_fails :: "path \<Rightarrow> write_failure option"
  remove_fails :: "path \<Rightarrow> bool"
  makedirs_fails :: "path \<Rightarrow> bool"
  listdir :: "path \<Rightarrow> error + ustring list"
  message :: "error \<Rightarrow> ustring"

text \<open>
  The state is the file system (the content of each file, and the directories), the
  lines printed so far, and the record of the file-system calls made so far, each with
  its success.
\<close>

datatype event =
    Read path bool
  | Write path ustring bool
  | Remove path bool
  | Makedirs path bool

record state =
  files :: "path \<rightharpoonup> ustring"
  dirs :: "path set"
  console :: "ustring list"
  trace :: "event list"

definition initial :: "(path \<rightharpoonup> ustring) \<Rightarrow> path set \<Rightarrow> state" where
  "initial fs ds = \<lparr>files = fs, dirs = ds, console = [], trace = []\<rparr>"

definition print :: "ustring \<Rightarrow> state \<Rightarrow> state" where
  "print line st = st\<lparr>console := console st @ [line]\<rparr>"

fun print_all :: "ustring list \<Rightarrow> state \<Rightarrow> state" where
  "print_all [] st = st"
| "print_all (line # rest) st = print_all rest (print line st)"

definition log_event :: "event \<Rightarrow> state \<Rightarrow> state" where
  "log_event ev st = st\<lparr>trace := trace st @ [ev]\<rparr>"

text \<open>\<open>with open(p, "r", encoding="utf-8") as f: f.read()\<close>\<close>

definition open_read :: "env \<Rightarrow> path \<Rightarrow> state \<Rightarrow> (error + ustring) \<times> state" where
  "open_read env p st =
     (case files st p of
        None \<Rightarrow> (Inl (ReadError p), log_event (Read p False) st)
      | Some text \<Rightarrow>
          if read_fails env p then (Inl (ReadError p), log_event (Read p False) st)
          else (Inr text, log_event (Read p True) st))"

text \<open>\<open>with open(p, "w", encoding="utf-8") as f: f.write(text)\<close>\<close>

definition open_write :: "env \<Rightarrow> path \<Rightarrow> ustring \<Rightarrow> state \<Rightarrow> (error + unit) \<times> state" where
  "open_write env p text st =
     (case write_fails env p of
        None \<Rightarrow> (Inr (), log_event (Write p text True) (st\<lparr>files := (files st)(p \<mapsto> text)\<rparr>))
      | Some OpenFails \<Rightarrow> (Inl (WriteError p), log_event (Write p text False) st)
      | Some (WriteFails left) \<Rightarrow>
          (Inl (WriteError p),
           log_event (Write p text False) (st\<lparr>files := (files st)(p \<mapsto> left)\<rparr>)))"

text \<open>\<open>os.remove(p)\<close>\<close>

definition os_remove :: "env \<Rightarrow> path \<Rightarrow> state \<Rightarrow> (error + unit) \<times> state" where
  "os_remove env p st =
     (if files st p = None \<or> remove_fails env p
      then (Inl (RemoveError p), log_event (Remove p False) st)
      else (Inr (), log_event (Remove p True) (st\<lparr>files := (files st)(p := None)\<rparr>)))"

text \<open>\<open>os.path.exists(p)\<close> and \<open>os.makedirs(p)\<close>\<close>

definition path_exists :: "state \<Rightarrow> path \<Rightarrow> bool" where
  "path_exists st p \<longleftrightarrow> p \<in> dirs st \<or> files st p \<noteq> None"

definition makedirs :: "env \<Rightarrow> path \<Rightarrow> state \<Rightarrow> (error + unit) \<times> state" where
  "makedirs env p st =
     (if makedirs_fails env p then (Inl (MakedirsError p), log_event (Makedirs p False) st)
      else (Inr (), log_event (Makedirs p True) (st\<lparr>dirs := insert p (dirs st)\<rparr>)))"

text \<open>\<open>os.path.join(a, b)\<close> and \<open>os.path.basename(p)\<close> on a POSIX system.\<close>

abbreviation slash :: uchar where "slash \<equiv> 47"
abbreviation quote :: uchar where "quote \<equiv> 39"
abbreviation newline :: uchar where "newline \<equiv> 10"

definition path_join :: "path \<Rightarrow> ustring \<Rightarrow> path" where
  "path_join a b =
     (if b \<noteq> [] \<and> hd b = slash then b
      else if a = [] \<or> last a = slash then a @ b
      else a @ [slash] @ b)"

definition basename :: "path \<Rightarrow> ustring" where
  "basename p = rev (takeWhile (\<lambda>c. c \<noteq> slash) (rev p))"

definition process_file :: "env \<Rightarrow> path \<Rightarrow> path \<Rightarrow> state \<Rightarrow> (error + bool) \<times> state" where
  "process_file env input_path output_path st =
     (case open_read env input_path st of
        (Inl e, st1) \<Rightarrow>
          (Inr False,
           print (ustr ''Error reading file '' @ input_path @ ustr '': '' @ message env e) st1)
      | (Inr original_text, st1) \<Rightarrow>
          (case clean_persian_text (isalnum env) (nlp env) original_text of
             Inl e \<Rightarrow> (Inl e, st1)
           | Inr cleaned_text \<Rightarrow>
               (case open_write env output_path cleaned_text st1 of
                  (Inl e, st2) \<Rightarrow> (Inl e, st2)
                | (Inr u, st2) \<Rightarrow>
                    (Inr True,
                     print ([newline] @ replicate 50 hyphen @ [newline])
                       (print_all (show_differences (ndiff env) original_text cleaned_text)
                          (print (ustr ''File '' @ [quote] @ basename input_path @ [quote] @
                                  ustr '' processed and saved as '' @ [quote] @ output_path @
                                  [quote]) st2))))))"

text \<open>
  The body of the loop of \<open>main\<close>, for one name of the input folder. It returns the
  list \<open>processed_files\<close> as the iteration leaves it, or the exception that leaves
  \<open>process_file\<close> and so the loop and \<open>main\<close>.
\<close>

definition main_step ::
  "env \<Rightarrow> path \<Rightarrow> path \<Rightarrow> ustring \<Rightarrow> ustring list \<Rightarrow> state \<Rightarrow> (error + ustring list) \<times> state"
where
  "main_step env input_folder output_folder filename processed_files st =
     (if endswith (ustr ''.txt'') filename then
        (let input_path = path_join input_folder filename;
             output_filename = ustr ''edited_'' @ filename;
             output_path = path_join output_folder output_filename
         in case process_file env input_path output_path st of
              (Inl e, st1) \<Rightarrow> (Inl e, st1)
            | (Inr success, st1) \<Rightarrow>
                if success then
                  (let processed_files = processed_files @ [filename]
                   in case os_remove env input_path st1 of
                        (Inr u, st2) \<Rightarrow>
                          (Inr processed_files,
                           print (ustr ''Original file '' @ [quote] @ filename @ [quote] @
                                  ustr '' deleted.'') st2)
                      | (Inl e, st2) \<Rightarrow>
                          (Inr processed_files,
                           print (ustr ''Error deleting file '' @ filename @ ustr '': '' @
                                  message env e) st2))
                else (Inr processed_files, st1))
      else (Inr processed_files, st))"

text \<open>The loop \<open>for filename in os.listdir(input_folder)\<close>.\<close>

fun process_all ::
  "env \<Rightarrow> path \<Rightarrow> path \<Rightarrow> ustring list \<Rightarrow> ustring list \<Rightarrow> state \<Rightarrow> (error + ustring list) \<times> state"
where
  "process_all env input_folder output_folder [] processed_files st = (Inr processed_files, st)"
| "process_all env input_folder output_folder (filename # rest) processed_files st =
     (case main_step env input_folder output_folder filename processed_files st of
        (Inl e, st1) \<Rightarrow> (Inl e, st1)
      | (Inr processed_files, st1) \<Rightarrow>
          process_all env input_folder output_folder rest processed_files st1)"

definition output_folder_of :: "path \<Rightarrow> path" where
  "output_folder_of project_root = path_join project_root (ustr ''editedbooktext'')"

definition processed_list_file_of :: "path \<Rightarrow> path" where
  "processed_list_file_of project_root = path_join project_root (ustr ''editedbook_list.txt'')"

text \<open>The text written to the list file: \<open>f.write(fname + "\n")\<close> for each name.\<close>

definition manifest_text :: "ustring list \<Rightarrow> ustring" where
  "manifest_text processed_files = concat (map (\<lambda>fname. fname @ [newline]) processed_files)"

text \<open>
  \<open>main\<close>; \<open>project_root\<close> is the directory of the script, which is also the input
  folder.
\<close>

definition main :: "env \<Rightarrow> path \<Rightarrow> state \<Rightarrow> (error + unit) \<times> state" where
  "main env project_root st =
     (let input_folder = project_root;
          output_folder = output_folder_of project_root
      in case (if \<not> path_exists st output_folder then makedirs env output_folder st
               else (Inr (), st)) of
           (Inl e, st1) \<Rightarrow> (Inl e, st1)
         | (Inr u, st1) \<Rightarrow>
             (let processed_list_file = processed_list_file_of project_root
              in case listdir env input_folder of
                   Inl e \<Rightarrow> (Inl e, st1)
                 | Inr names \<Rightarrow>
                     (case process_all env input_folder output_folder names [] st1 of
                        (Inl e, st2) \<Rightarrow> (Inl e, st2)
                      | (Inr processed_files, st2) \<Rightarrow>
                          if processed_files \<noteq> [] then
                            (case open_write env processed_list_file
                                    (manifest_text processed_files) st2 of
                               (Inl e, st3) \<Rightarrow> (Inl e, st3)
                             | (Inr u, st3) \<Rightarrow>
                                 (Inr (),
                                  print (ustr ''List of processed files saved in '' @ [quote] @
                                         processed_list_file @ [quote] @ ustr ''.'') st3))
                          else (Inr (), print (ustr ''No files were processed.'') st2))))"


section \<open>Notions for stating the properties of a batch run\<close>

text \<open>The input path and the output path that \<open>main\<close> builds for a file name.\<close>

definition input_path_of :: "path \<Rightarrow> ustring \<Rightarrow> path" where
  "input_path_of project_root filename = path_join project_root filename"

definition output_path_of :: "path \<Rightarrow> ustring \<Rightarrow> path" where
  "output_path_of project_root filename =
     path_join (output_folder_of project_root) (ustr ''edited_'' @ filename)"

text \<open>The paths written successfully, in the order of the writes.\<close>

fun written_files :: "event list \<Rightarrow> path list" where
  "written_files [] = []"
| "written_files (Write p text True # evs) = p # written_files evs"
| "written_files (ev # evs) = written_files evs"

text \<open>
  Every attempt to remove a path comes after a successful write of the output of a
  file name of which the path is the input path.
\<close>

definition removes_after_writes :: "path \<Rightarrow> event list \<Rightarrow> bool" where
  "removes_after_writes project_root tr \<longleftrightarrow>
     (\<forall>pre p ok post. tr = pre @ Remove p ok # post \<longrightarrow>
        (\<exists>f text. p = input_path_of project_root f \<and>
           Write (output_path_of project_root f) text True \<in> set pre))"

text \<open>Every write in the record succeeded, and went to the output path of a file name.\<close>

definition only_output_writes :: "path \<Rightarrow> event list \<Rightarrow> bool" where
  "only_output_writes project_root tr \<longleftrightarrow>
     (\<forall>p text ok. Write p text ok \<in> set tr \<longrightarrow>
        ok \<and> (\<exists>f. p = output_path_of project_root f))"

text \<open>A failed write is the last call of the record, and its error is the one raised.\<close>

definition failed_write_last :: "error \<Rightarrow> event list \<Rightarrow> bool" where
  "failed_write_last e tr \<longleftrightarrow>
     (\<forall>pre p text post. tr = pre @ Write p text False # post \<longrightarrow>
        post = [] \<and> e = WriteError p)"

section \<open>A concrete world for evaluation\<close>

text \<open>
  Concrete values of the parameters, on which the definitions above can be run: a part
  of the Unicode database (ASCII letters and digits, and the Arabic-script letters
  U+0620 to U+064A, tatweel among them, and U+0671 to U+06D3), and a tokenizer that
  splits at whitespace and returns one sentence.
\<close>

definition example_alnum :: "uchar \<Rightarrow> bool" where
  "example_alnum c \<longleftrightarrow>
     (48 \<le> c \<and> c \<le> 57) \<or> (65 \<le> c \<and> c \<le> 90) \<or> (97 \<le> c \<and> c \<le> 122) \<or>
     (1568 \<le> c \<and> c \<le> 1610) \<or> (1649 \<le> c \<and> c \<le> 1747)"

fun split_ws :: "ustring \<Rightarrow> ustring \<Rightarrow> ustring list" where
  "split_ws cur [] = (if cur = [] then [] else [cur])"
| "split_ws cur (c # cs) =
     (if is_space c then (if cur = [] then split_ws [] cs else cur # split_ws [] cs)
      else split_ws (cur @ [c]) cs)"

definition example_nlp :: tokenizer where
  "example_nlp text = Inr [split_ws [] text]"

text \<open>
  A stand-in for the diff library: the common first lines are kept, the other lines of
  the first list are deleted and those of the second inserted.
\<close>

fun example_ndiff :: differ where
  "example_ndiff (x # xs) (y # ys) =
     (if x = y then (ustr ''  '' @ x) # example_ndiff xs ys
      else map (\<lambda>l. ustr ''- '' @ l) (x # xs) @ map (\<lambda>l. ustr ''+ '' @ l) (y # ys))"
| "example_ndiff xs ys = map (\<lambda>l. ustr ''- '' @ l) xs @ map (\<lambda>l. ustr ''+ '' @ l) ys"

text \<open>
  A world in which no file-system call fails, with the input folder \<open>/r\<close> that lists
  two text files and the script.
\<close>

definition example_root :: path where
  "example_root = ustr ''/r''"

definition example_env :: env where
  "example_env =
     \<lparr>isalnum = example_alnum, nlp = example_nlp, ndiff = example_ndiff,
      read_fails = (\<lambda>p. False), write_fails = (\<lambda>p. None), remove_fails = (\<lambda>p. False),
      makedirs_fails = (\<lambda>p. False),
      listdir = (\<lambda>p. Inr [ustr ''a.txt'', ustr ''editortext.py'', ustr ''b.txt'']),
      message = (\<lambda>e. ustr ''failed'')\<rparr>"

definition example_files :: "path \<rightharpoonup> ustring" where
  "example_files =
     [ustr ''/r/a.txt'' \<mapsto> ustr ''x-y  z'', ustr ''/r/b.txt'' \<mapsto> ustr ''p_q?'',
      ustr ''/r/editortext.py'' \<mapsto> ustr ''import os'']"

definition example_initial :: state where
  "example_initial = initial example_files {}"

text \<open>
  The same world with one failure: a write that fails at \<open>open\<close>, a removal that
  fails, a read that fails, a tokenizer that raises on one text.
\<close>

definition env_write_fails :: "path \<Rightarrow> env" where
  "env_write_fails p =
     example_env\<lparr>write_fails := (\<lambda>q. if q = p then Some OpenFails else None)\<rparr>"

definition env_remove_fails :: "path \<Rightarrow> env" where
  "env_remove_fails p = example_env\<lparr>remove_fails := (\<lambda>q. q = p)\<rparr>"

definition env_read_fails :: "path \<Rightarrow> env" where
  "env_read_fails p = example_env\<lparr>read_fails := (\<lambda>q. q = p)\<rparr>"

definition env_tokenizer_fails :: "ustring \<Rightarrow> env" where
  "env_tokenizer_fails t =
     example_env\<lparr>nlp := (\<lambda>u. if u = t then Inl TokenizerError else example_nlp u)\<rparr>"

text \<open>
  Two texts in code points: a greeting with an underscore, a hyphen and a question
  mark, and an enumeration with runs of spaces and the three kept punctuation marks;
  and what the Normalizer makes of each.
\<close>

definition example_text1 :: ustring where
  "example_text1 =
     [1587, 1604, 1575, 1605, 95, 1583, 1606, 1740, 1575, 32, 45, 32,
      1582, 1608, 1576, 1740, 1567]"

definition example_cleaned1 :: ustring where
  "example_cleaned1 =
     [1587, 1604, 1575, 1605, 1583, 1606, 1740, 1575, 32, 1582, 1608, 1576, 1740]"

definition example_text2 :: ustring where
  "example_text2 =
     [1740, 1705, 46, 32, 32, 32, 32, 1583, 1608, 1548, 32, 32, 32,
      1587, 1607, 58, 32, 1670, 1607, 1575, 1585]"

definition example_tokens2 :: "ustring list" where
  "example_tokens2 =
     [[1740, 1705, 46], [1583, 1608, 1548], [1587, 1607, 58], [1670, 1607, 1575, 1585]]"

definition example_cleaned2 :: ustring where
  "example_cleaned2 =
     [1740, 1705, 46, 32, 1583, 1608, 1548, 32, 1587, 1607, 58, 32, 1670, 1607, 1575, 1585]"

section \<open>Properties of the substitutions and of \<open>strip\<close>\<close>

lemma sub_class_empty: "sub_class P [] s = filter (\<lambda>c. \<not> P c) s"
  by (induction s) auto

lemma sub_class_plus_empty: "sub_class_plus P [] s = filter (\<lambda>c. \<not> P c) s"
proof (induction P "[] :: ustring" s rule: sub_class_plus.induct)
  case (1 P)
  then show ?case by simp
next
  case (2 P c cs)
  have "filter (\<lambda>c. \<not> P c) (dropWhile P cs) = filter (\<lambda>c. \<not> P c) cs"
    by (induction cs) auto
  with 2 show ?case by simp
qed

lemma set_sub_class_plus: "set (sub_class_plus P repl s) \<subseteq> set repl \<union> {c \<in> set s. \<not> P c}"
proof (induction P repl s rule: sub_class_plus.induct)
  case (1 P repl)
  then show ?case by simp
next
  case (2 P repl c cs)
  have "set (dropWhile P cs) \<subseteq> set cs" by (rule set_dropWhileD[THEN subsetI]) 
  with 2 show ?case by auto
qed

lemma set_strip: "set (strip s) \<subseteq> set s"
  unfolding strip_def by (auto dest!: set_dropWhileD)

lemma head_sub_class_plus:
  "s = [] \<or> \<not> P (hd s) \<Longrightarrow> sub_class_plus P repl s = [] \<or> \<not> P (hd (sub_class_plus P repl s))"
  by (cases s) auto

lemma dropWhile_head: "dropWhile P s = [] \<or> \<not> P (hd (dropWhile P s))"
  by (metis hd_dropWhile)

lemma collapse_no_adjacent: "no_adjacent_space (sub_class_plus is_space [space] s)"
proof (induction is_space "[space]" s rule: sub_class_plus.induct)
  case 1
  then show ?case by simp
next
  case (2 c cs)
  show ?case
  proof (cases "is_space c")
    case True
    let ?r = "sub_class_plus is_space [space] (dropWhile is_space cs)"
    have "?r = [] \<or> \<not> is_space (hd ?r)"
      by (rule head_sub_class_plus) (rule dropWhile_head)
    moreover have "no_adjacent_space ?r" using 2(1) True by simp
    ultimately show ?thesis using True by (cases ?r) auto
  next
    case False
    let ?r = "sub_class_plus is_space [space] cs"
    have "no_adjacent_space ?r" using 2(2) False by simp
    then show ?thesis using False by (cases ?r) auto
  qed
qed

lemma collapse_only_space: "c \<in> set (sub_class_plus is_space [space] s) \<Longrightarrow> is_space c \<Longrightarrow> c = space"
  using set_sub_class_plus[of is_space "[space]" s] by auto

lemma no_adjacent_dropWhile: "no_adjacent_space s \<Longrightarrow> no_adjacent_space (dropWhile P s)"
  by (induction s rule: no_adjacent_space.induct) auto

lemma no_adjacent_nth:
  "no_adjacent_space s \<longleftrightarrow> (\<forall>i. Suc i < length s \<longrightarrow> \<not> (is_space (s ! i) \<and> is_space (s ! Suc i)))"
proof (induction s rule: no_adjacent_space.induct)
  case (1 a b cs)
  show ?case
  proof
    assume h: "no_adjacent_space (a # b # cs)"
    show "\<forall>i. Suc i < length (a # b # cs) \<longrightarrow> \<not> (is_space ((a # b # cs) ! i) \<and> is_space ((a # b # cs) ! Suc i))"
    proof (intro allI impI)
      fix i assume "Suc i < length (a # b # cs)"
      then show "\<not> (is_space ((a # b # cs) ! i) \<and> is_space ((a # b # cs) ! Suc i))"
        using h 1 by (cases i) auto
    qed
  next
    assume h: "\<forall>i. Suc i < length (a # b # cs) \<longrightarrow> \<not> (is_space ((a # b # cs) ! i) \<and> is_space ((a # b # cs) ! Suc i))"
    have "\<not> (is_space a \<and> is_space b)" using h[rule_format, of 0] by simp
    moreover have "\<forall>i. Suc i < length (b # cs) \<longrightarrow> \<not> (is_space ((b # cs) ! i) \<and> is_space ((b # cs) ! Suc i))"
      using h by (metis Suc_less_eq length_Cons nth_Cons_Suc)
    ultimately show "no_adjacent_space (a # b # cs)" using 1 by simp
  qed
qed simp_all

lemma no_adjacent_rev: "no_adjacent_space (rev s) = no_adjacent_space s"
proof -
  have "\<And>s. no_adjacent_space s \<Longrightarrow> no_adjacent_space (rev s)"
  proof -
    fix s assume h: "no_adjacent_space s"
    show "no_adjacent_space (rev s)"
      unfolding no_adjacent_nth
    proof (intro allI impI)
      fix i assume i: "Suc i < length (rev s)"
      then have "Suc (length s - Suc (Suc i)) < length s" by simp
      with h have "\<not> (is_space (s ! (length s - Suc (Suc i))) \<and> is_space (s ! Suc (length s - Suc (Suc i))))"
        unfolding no_adjacent_nth by blast
      moreover have "Suc (length s - Suc (Suc i)) = length s - Suc i" using i by simp
      ultimately show "\<not> (is_space (rev s ! i) \<and> is_space (rev s ! Suc i))"
        using i by (auto simp add: rev_nth)
    qed
  qed
  from this[of s] this[of "rev s"] show ?thesis by auto
qed

lemma no_adjacent_strip: "no_adjacent_space s \<Longrightarrow> no_adjacent_space (strip s)"
  unfolding strip_def by (simp add: no_adjacent_rev no_adjacent_dropWhile)

lemma last_dropWhile_ne: "dropWhile P xs \<noteq> [] \<Longrightarrow> last (dropWhile P xs) = last xs"
  by (induction xs) (auto split: if_splits)

lemma strip_ends: "strip s \<noteq> [] \<Longrightarrow> \<not> is_space (hd (strip s)) \<and> \<not> is_space (last (strip s))"
proof -
  assume ne: "strip s \<noteq> []"
  let ?d = "dropWhile is_space s"
  let ?e = "dropWhile is_space (rev ?d)"
  have e: "?e \<noteq> []" using ne by (simp add: strip_def)
  have l: "\<not> is_space (hd ?e)" using e by (metis hd_dropWhile)
  have "last (strip s) = hd ?e" using e by (simp add: strip_def last_rev)
  moreover have "hd (strip s) = hd ?d"
  proof -
    have "?d \<noteq> []" using e by (metis dropWhile.simps(1) rev.simps(1))
    moreover have "\<not> is_space (hd ?d)" using \<open>?d \<noteq> []\<close> by (metis hd_dropWhile)
    ultimately have "\<not> is_space (last (rev ?d))" by (simp add: last_rev)
    have "hd (rev ?e) = last ?e" using e by (simp add: hd_rev)
    also have "last ?e = last (rev ?d)" using e by (rule last_dropWhile_ne)
    also have "\<dots> = hd ?d" using \<open>?d \<noteq> []\<close> by (simp add: last_rev)
    finally show ?thesis by (simp add: strip_def)
  qed
  moreover have "\<not> is_space (hd ?d)" using e by (metis dropWhile.simps(1) rev.simps(1) hd_dropWhile)
  ultimately show ?thesis using l by simp
qed


lemma clean_joined_set:
  assumes "c \<in> set (clean_joined alnum s)"
  shows "\<not> strip_chars c \<and> \<not> not_allowed alnum c"
proof -
  let ?a = "filter (\<lambda>c. \<not> strip_chars c) s"
  let ?b = "filter (\<lambda>c. \<not> not_allowed alnum c) ?a"
  have "c \<in> set (sub_class_plus is_space [space] ?b)"
    using assms set_strip unfolding clean_joined_def Let_def sub_class_empty sub_class_plus_empty
    by blast
  then have "c = space \<or> c \<in> set ?b"
    using set_sub_class_plus[of is_space "[space]" ?b] by auto
  then show ?thesis
  proof
    assume "c = space"
    then show ?thesis by (simp add: strip_chars_def not_allowed_def is_space_def)
  next
    assume "c \<in> set ?b"
    then show ?thesis by simp
  qed
qed

lemma clean_joined_no_adjacent: "no_adjacent_space (clean_joined alnum s)"
  unfolding clean_joined_def Let_def by (rule no_adjacent_strip) (rule collapse_no_adjacent)

lemma clean_joined_only_space:
  assumes "c \<in> set (clean_joined alnum s)" and "is_space c"
  shows "c = space"
proof -
  have "c \<in> set (sub_class_plus is_space [space] (sub_class (not_allowed alnum) [] (sub_class_plus strip_chars [] s)))"
    using assms(1) set_strip unfolding clean_joined_def Let_def by blast
  then show ?thesis using assms(2) by (rule collapse_only_space)
qed

lemma clean_joined_ends:
  "clean_joined alnum s \<noteq> [] \<Longrightarrow>
     \<not> is_space (hd (clean_joined alnum s)) \<and> \<not> is_space (last (clean_joined alnum s))"
  unfolding clean_joined_def Let_def by (rule strip_ends)

lemma collapse_id:
  "no_adjacent_space s \<Longrightarrow> \<forall>c\<in>set s. is_space c \<longrightarrow> c = space \<Longrightarrow>
     sub_class_plus is_space [space] s = s"
  by (induction s rule: no_adjacent_space.induct) auto

lemma strip_id:
  assumes "s = [] \<or> (\<not> is_space (hd s) \<and> \<not> is_space (last s))"
  shows "strip s = s"
proof (cases s)
  case Nil
  then show ?thesis by (simp add: strip_def)
next
  case (Cons a as)
  with assms have h: "\<not> is_space (hd s)" and l: "\<not> is_space (last s)" by auto
  have "dropWhile is_space s = s" using Cons h by simp
  moreover have "dropWhile is_space (rev s) = rev s"
  proof -
    have "s \<noteq> []" using Cons by simp
    then have "hd (rev s) = last s" by (simp add: hd_rev)
    with l have "\<not> is_space (hd (rev s))" by simp
    then show ?thesis by (cases "rev s") auto
  qed
  ultimately show ?thesis by (simp add: strip_def)
qed

lemma clean_joined_fixed:
  assumes "\<forall>c\<in>set s. \<not> strip_chars c \<and> \<not> not_allowed alnum c"
    and "no_adjacent_space s"
    and "\<forall>c\<in>set s. is_space c \<longrightarrow> c = space"
    and "s = [] \<or> (\<not> is_space (hd s) \<and> \<not> is_space (last s))"
  shows "clean_joined alnum s = s"
proof -
  have a: "sub_class_plus strip_chars [] s = s"
    using assms(1) by (simp add: sub_class_plus_empty)
  have b: "sub_class (not_allowed alnum) [] s = s"
    using assms(1) by (simp add: sub_class_empty)
  have c: "sub_class_plus is_space [space] s = s"
    using assms(2,3) by (rule collapse_id)
  show ?thesis
    unfolding clean_joined_def Let_def a b c using assms(4) by (rule strip_id)
qed

lemma clean_joined_idem: "clean_joined alnum (clean_joined alnum s) = clean_joined alnum s"
proof (rule clean_joined_fixed)
  show "\<forall>c\<in>set (clean_joined alnum s). \<not> strip_chars c \<and> \<not> not_allowed alnum c"
    using clean_joined_set by blast
  show "no_adjacent_space (clean_joined alnum s)" by (rule clean_joined_no_adjacent)
  show "\<forall>c\<in>set (clean_joined alnum s). is_space c \<longrightarrow> c = space"
    using clean_joined_only_space by blast
  show "clean_joined alnum s = [] \<or>
    (\<not> is_space (hd (clean_joined alnum s)) \<and> \<not> is_space (last (clean_joined alnum s)))"
    using clean_joined_ends by blast
qed

lemma linebreak_is_space: "is_linebreak c \<Longrightarrow> is_space c"
  by (auto simp: is_linebreak_def is_space_def)

lemma clean_persian_text_Inr:
  "clean_persian_text alnum tok text = Inr out \<Longrightarrow>
     \<exists>doc. tok text = Inr doc \<and> out = clean_joined alnum (join [space] (concat doc))"
  by (auto simp: clean_persian_text_def normalize_tokens_def split: sum.splits)


section \<open>The Normalizer's guarantees\<close>

lemmas run_defs =
  clean_persian_text_def normalize_tokens_def clean_joined_def strip_def is_space_def
  not_allowed_def is_word_def strip_chars_def example_alnum_def example_nlp_def
  example_text1_def example_cleaned1_def example_text2_def example_cleaned2_def
  example_tokens2_def

lemma example_run1:
  "clean_persian_text example_alnum example_nlp example_text1 = Inr example_cleaned1"
  by (simp add: run_defs)

lemma example_run2:
  "clean_persian_text example_alnum example_nlp example_text2 = Inr example_cleaned2"
  by (simp add: run_defs)

text \<open>
  C1 (character-set invariant). Whatever the text, the tokenizer and the Unicode
  database, a text returned by \<open>clean_persian_text\<close> contains no tatweel, no hyphen
  and no underscore, and each of its characters is a word character, a whitespace
  character, a period, a Persian comma or a colon.
\<close>

theorem clean_persian_text_charset:
  assumes "clean_persian_text alnum tok text = Inr out"
  shows "\<forall>c\<in>set out. c \<noteq> tatweel \<and> c \<noteq> hyphen \<and> c \<noteq> underscore \<and>
           (is_word alnum c \<or> is_space c \<or> c = period \<or> c = persian_comma \<or> c = colon)"
proof
  fix c assume "c \<in> set out"
  with clean_persian_text_Inr[OF assms] have "\<not> strip_chars c \<and> \<not> not_allowed alnum c"
    using clean_joined_set by blast
  then show "c \<noteq> tatweel \<and> c \<noteq> hyphen \<and> c \<noteq> underscore \<and>
           (is_word alnum c \<or> is_space c \<or> c = period \<or> c = persian_comma \<or> c = colon)"
    by (simp add: strip_chars_def not_allowed_def)
qed

theorem clean_persian_text_charset_witness:
  "clean_persian_text example_alnum example_nlp example_text1 = Inr example_cleaned1 \<and>
   list_all (\<lambda>c. c \<noteq> tatweel \<and> c \<noteq> hyphen \<and> c \<noteq> underscore \<and>
       (is_word example_alnum c \<or> is_space c \<or> c = period \<or> c = persian_comma \<or> c = colon))
     example_cleaned1"
  using example_run1 clean_persian_text_charset [OF example_run1]
  unfolding list_all_iff by blast

text \<open>
  C2 (whitespace invariant). In a text returned by \<open>clean_persian_text\<close> no two
  neighbouring characters are both whitespace, every whitespace character is the ASCII
  space (so there is no line break and the text is one line), and the text neither
  starts nor ends with whitespace.
\<close>

theorem clean_persian_text_whitespace:
  assumes "clean_persian_text alnum tok text = Inr out"
  shows "(\<forall>i. Suc i < length out \<longrightarrow> \<not> (is_space (out ! i) \<and> is_space (out ! Suc i))) \<and>
         (\<forall>c\<in>set out. is_space c \<longrightarrow> c = space) \<and>
         (\<forall>c\<in>set out. \<not> is_linebreak c) \<and>
         (out \<noteq> [] \<longrightarrow> \<not> is_space (hd out) \<and> \<not> is_space (last out))"
proof -
  from clean_persian_text_Inr[OF assms] obtain s where out: "out = clean_joined alnum s"
    by blast
  have "no_adjacent_space out" unfolding out by (rule clean_joined_no_adjacent)
  then have "\<forall>i. Suc i < length out \<longrightarrow> \<not> (is_space (out ! i) \<and> is_space (out ! Suc i))"
    by (simp only: no_adjacent_nth)
  moreover have sp: "\<forall>c\<in>set out. is_space c \<longrightarrow> c = space"
    unfolding out using clean_joined_only_space by blast
  moreover have "\<forall>c\<in>set out. \<not> is_linebreak c"
  proof
    fix c assume c: "c \<in> set out"
    show "\<not> is_linebreak c"
    proof
      assume lb: "is_linebreak c"
      then have "is_space c" by (rule linebreak_is_space)
      with sp c have "c = space" by blast
      with lb show False by (simp add: is_linebreak_def)
    qed
  qed
  moreover have "out \<noteq> [] \<longrightarrow> \<not> is_space (hd out) \<and> \<not> is_space (last out)"
    unfolding out using clean_joined_ends by blast
  ultimately show ?thesis by blast
qed

theorem clean_persian_text_whitespace_witness:
  "clean_persian_text example_alnum example_nlp example_text2 = Inr example_cleaned2 \<and>
   no_adjacent_space example_cleaned2 \<and>
   list_all (\<lambda>c. is_space c \<longrightarrow> c = space) example_cleaned2 \<and>
   list_all (\<lambda>c. \<not> is_linebreak c) example_cleaned2 \<and>
   example_cleaned2 \<noteq> [] \<and>
   \<not> is_space (hd example_cleaned2) \<and> \<not> is_space (last example_cleaned2)"
proof -
  have "example_cleaned2 \<noteq> []" by (simp add: example_cleaned2_def)
  then show ?thesis
    using example_run2 clean_persian_text_whitespace [OF example_run2]
    unfolding list_all_iff no_adjacent_nth by blast
qed

text \<open>
  C3 (totality). When the tokenizer returns a document, \<open>clean_persian_text\<close> returns a
  text, the transform of the document's tokens: joining, stripping and collapsing
  raise nothing. When the document has no tokens, as for the empty text, the text
  returned is empty.
\<close>

theorem normalizer_total:
  assumes "tok text = Inr doc"
  shows "clean_persian_text alnum tok text = Inr (normalize_tokens alnum (concat doc)) \<and>
         (concat doc = [] \<longrightarrow> clean_persian_text alnum tok text = Inr [])"
proof -
  have empty: "normalize_tokens alnum [] = []"
    by (simp add: normalize_tokens_def clean_joined_def strip_def)
  have run: "clean_persian_text alnum tok text = Inr (normalize_tokens alnum (concat doc))"
    using assms by (simp add: clean_persian_text_def)
  moreover have "clean_persian_text alnum tok text = Inr []" if "concat doc = []"
    unfolding run that empty ..
  ultimately show ?thesis by blast
qed

theorem normalizer_total_witness:
  "example_nlp [] = Inr [[]] \<and> concat [[] :: ustring list] = [] \<and>
   clean_persian_text example_alnum example_nlp [] = Inr []"
proof -
  have doc: "example_nlp [] = Inr [[]]" by (simp add: example_nlp_def)
  have none: "concat [[] :: ustring list] = []" by simp
  show ?thesis
    using doc none normalizer_total [of example_nlp "[]" "[[]]" example_alnum]
    by blast
qed

text \<open>
  C4 (idempotence). A text returned by \<open>clean_persian_text\<close> is a fixed point of the
  strip and collapse steps. So cleaning it again returns it unchanged when the
  tokenizer gives it the token sequence it gave the original text, and also when the
  tokens the tokenizer gives it, joined by single spaces, are the cleaned text itself.
\<close>

theorem clean_persian_text_idempotent:
  assumes "clean_persian_text alnum tok text = Inr cleaned"
  shows "clean_joined alnum cleaned = cleaned \<and>
         (tok cleaned = tok text \<longrightarrow> clean_persian_text alnum tok cleaned = Inr cleaned) \<and>
         (\<forall>doc. tok cleaned = Inr doc \<and> join [space] (concat doc) = cleaned \<longrightarrow>
            clean_persian_text alnum tok cleaned = Inr cleaned)"
proof -
  from clean_persian_text_Inr[OF assms] obtain s where c: "cleaned = clean_joined alnum s"
    by blast
  have fixed: "clean_joined alnum cleaned = cleaned"
    unfolding c by (rule clean_joined_idem)
  have "tok cleaned = tok text \<longrightarrow> clean_persian_text alnum tok cleaned = Inr cleaned"
    using assms by (simp add: clean_persian_text_def)
  moreover have "\<forall>doc. tok cleaned = Inr doc \<and> join [space] (concat doc) = cleaned \<longrightarrow>
            clean_persian_text alnum tok cleaned = Inr cleaned"
    using fixed by (simp add: clean_persian_text_def normalize_tokens_def)
  ultimately show ?thesis using fixed by blast
qed

theorem clean_persian_text_idempotent_witness:
  "clean_persian_text example_alnum example_nlp example_text2 = Inr example_cleaned2 \<and>
   example_nlp example_cleaned2 = example_nlp example_text2 \<and>
   example_nlp example_cleaned2 = Inr [example_tokens2] \<and>
   join [space] (concat [example_tokens2]) = example_cleaned2 \<and>
   clean_joined example_alnum example_cleaned2 = example_cleaned2 \<and>
   clean_persian_text example_alnum example_nlp example_cleaned2 = Inr example_cleaned2"
proof -
  have same: "example_nlp example_cleaned2 = example_nlp example_text2"
    by (simp add: run_defs)
  have doc: "example_nlp example_cleaned2 = Inr [example_tokens2]"
    by (simp add: run_defs)
  have joined: "join [space] (concat [example_tokens2]) = example_cleaned2"
    by (simp add: run_defs)
  show ?thesis
    using example_run2 same doc joined clean_persian_text_idempotent [OF example_run2]
    by blast
qed

section \<open>Paths\<close>

lemma output_folder_of_eq:
  "output_folder_of root = (if root = [] \<or> last root = slash then root else root @ [slash]) @ ustr ''editedbooktext''"
  by (simp add: output_folder_of_def path_join_def ustr_def)

lemma processed_list_file_of_eq:
  "processed_list_file_of root = (if root = [] \<or> last root = slash then root else root @ [slash]) @ ustr ''editedbook_list.txt''"
  by (simp add: processed_list_file_of_def path_join_def ustr_def)

lemma output_path_of_eq:
  "output_path_of root f = output_folder_of root @ ustr ''/edited_'' @ f"
  by (simp add: output_path_of_def path_join_def output_folder_of_eq ustr_def)

lemma output_path_of_inj: "output_path_of root f = output_path_of root g \<Longrightarrow> f = g"
  by (simp add: output_path_of_eq)

lemma length_input_path_of: "length (input_path_of root f) \<le> length root + 1 + length f"
  by (simp add: input_path_of_def path_join_def)

lemma input_neq_output: "input_path_of root f \<noteq> output_path_of root f"
proof
  assume "input_path_of root f = output_path_of root f"
  then have "length (input_path_of root f) = length (output_path_of root f)" by simp
  moreover have "length (output_path_of root f) \<ge> length root + 22 + length f"
    by (simp add: output_path_of_eq output_folder_of_eq ustr_def)
  ultimately show False using length_input_path_of[of root f] by simp
qed

lemma manifest_neq_output: "processed_list_file_of root \<noteq> output_path_of root f"
  by (simp add: output_path_of_eq output_folder_of_eq processed_list_file_of_eq ustr_def)

section \<open>Printing and logging\<close>

lemma print_simps [simp]:
  "files (print l st) = files st" "dirs (print l st) = dirs st" "trace (print l st) = trace st"
  by (simp_all add: print_def)

lemma print_all_simps [simp]:
  "files (print_all ls st) = files st" "dirs (print_all ls st) = dirs st"
  "trace (print_all ls st) = trace st"
  by (induction ls arbitrary: st) simp_all

lemma log_event_simps [simp]:
  "files (log_event ev st) = files st" "dirs (log_event ev st) = dirs st"
  "trace (log_event ev st) = trace st @ [ev]" "console (log_event ev st) = console st"
  by (simp_all add: log_event_def)

section \<open>One call of process_file\<close>

lemma process_file_cases:
  assumes "process_file env inp outp st = (r, st')"
  shows
   "(r = Inr False \<and> trace st' = trace st @ [Read inp False] \<and> files st' = files st)
    \<or> (\<exists>e. r = Inl e \<and> trace st' = trace st @ [Read inp True] \<and> files st' = files st)
    \<or> (\<exists>cleaned. r = Inl (WriteError outp) \<and>
          trace st' = trace st @ [Read inp True, Write outp cleaned False] \<and>
          files st inp \<noteq> None \<and> (\<forall>p. p \<noteq> outp \<longrightarrow> files st' p = files st p))
    \<or> (\<exists>cleaned. r = Inr True \<and>
          trace st' = trace st @ [Read inp True, Write outp cleaned True] \<and>
          files st inp \<noteq> None \<and> files st' = (files st)(outp \<mapsto> cleaned))"
  using assms
  by (auto simp: process_file_def open_read_def open_write_def
           split: option.splits if_splits sum.splits prod.splits write_failure.splits)


section \<open>One iteration of the loop\<close>

lemma main_step_skip:
  "\<not> endswith (ustr ''.txt'') f \<Longrightarrow>
     main_step env root outf f processed st = (Inr processed, st)"
  by (simp add: main_step_def)

lemma main_step_txt:
  assumes "endswith (ustr ''.txt'') f"
    and "process_file env (input_path_of root f) (output_path_of root f) st = (r1, st1)"
  shows "main_step env root (output_folder_of root) f processed st =
     (case r1 of
        Inl e \<Rightarrow> (Inl e, st1)
      | Inr success \<Rightarrow>
          if success then
            (case os_remove env (input_path_of root f) st1 of
               (Inr u, st2) \<Rightarrow>
                 (Inr (processed @ [f]),
                  print (ustr ''Original file '' @ [quote] @ f @ [quote] @ ustr '' deleted.'') st2)
             | (Inl e, st2) \<Rightarrow>
                 (Inr (processed @ [f]),
                  print (ustr ''Error deleting file '' @ f @ ustr '': '' @ message env e) st2))
          else (Inr processed, st1))"
  using assms
  by (simp add: main_step_def input_path_of_def output_path_of_def Let_def split: sum.splits)

lemma os_remove_cases:
  assumes "os_remove env p st = (r, st')"
  shows "\<exists>ok. trace st' = trace st @ [Remove p ok] \<and> (\<forall>q. q \<noteq> p \<longrightarrow> files st' q = files st q) \<and>
           (ok \<longleftrightarrow> r = Inr ()) \<and> (\<not> ok \<longrightarrow> files st' = files st \<and> r = Inl (RemoveError p))"
  using assms by (auto simp: os_remove_def split: if_splits)

lemma main_step_cases:
  assumes "main_step env root (output_folder_of root) f processed st = (r, st')"
  shows
   "(r = Inr processed \<and> trace st' = trace st \<and> files st' = files st)
    \<or> (r = Inr processed \<and> trace st' = trace st @ [Read (input_path_of root f) False] \<and>
          files st' = files st)
    \<or> (\<exists>e. r = Inl e \<and> trace st' = trace st @ [Read (input_path_of root f) True] \<and>
          files st' = files st)
    \<or> (\<exists>cleaned. r = Inl (WriteError (output_path_of root f)) \<and>
          trace st' = trace st @ [Read (input_path_of root f) True,
                                  Write (output_path_of root f) cleaned False] \<and>
          files st' (input_path_of root f) \<noteq> None)
    \<or> (\<exists>cleaned ok. r = Inr (processed @ [f]) \<and>
          trace st' = trace st @ [Read (input_path_of root f) True,
                                  Write (output_path_of root f) cleaned True,
                                  Remove (input_path_of root f) ok] \<and>
          files st' (output_path_of root f) = Some cleaned)"
proof (cases "endswith (ustr ''.txt'') f")
  case False
  then show ?thesis using assms by (simp add: main_step_skip)
next
  case True
  let ?inp = "input_path_of root f" and ?outp = "output_path_of root f"
  obtain r1 st1 where pf: "process_file env ?inp ?outp st = (r1, st1)"
    by (cases "process_file env ?inp ?outp st")
  note step = assms [unfolded main_step_txt [OF True pf]]
  have ne: "?inp \<noteq> ?outp" by (rule input_neq_output)
  from process_file_cases [OF pf] show ?thesis
  proof (elim disjE exE conjE)
    assume "r1 = Inr False" "trace st1 = trace st @ [Read ?inp False]" "files st1 = files st"
    then show ?thesis using step by simp
  next
    fix e assume "r1 = Inl e" "trace st1 = trace st @ [Read ?inp True]" "files st1 = files st"
    then show ?thesis using step by auto
  next
    fix cleaned
    assume "r1 = Inl (WriteError ?outp)"
      "trace st1 = trace st @ [Read ?inp True, Write ?outp cleaned False]"
      "files st ?inp \<noteq> None" "\<forall>p. p \<noteq> ?outp \<longrightarrow> files st1 p = files st p"
    then show ?thesis using step ne by auto
  next
    fix cleaned
    assume a: "r1 = Inr True"
      "trace st1 = trace st @ [Read ?inp True, Write ?outp cleaned True]"
      "files st1 = (files st)(?outp \<mapsto> cleaned)"
    obtain r2 st2 where rm: "os_remove env ?inp st1 = (r2, st2)"
      by (cases "os_remove env ?inp st1")
    from os_remove_cases [OF rm] obtain ok where
      ok: "trace st2 = trace st1 @ [Remove ?inp ok]"
        "\<forall>q. q \<noteq> ?inp \<longrightarrow> files st2 q = files st1 q" by blast
    have "files st2 ?outp = Some cleaned" using ok(2) a(3) ne by simp
    moreover have "trace st2 = trace st @ [Read ?inp True, Write ?outp cleaned True, Remove ?inp ok]"
      using ok(1) a(2) by simp
    moreover have "r = Inr (processed @ [f]) \<and> trace st' = trace st2 \<and> files st' = files st2"
      using step a(1) rm by (auto split: sum.splits)
    ultimately show ?thesis by auto
  qed
qed

section \<open>The loop\<close>

lemma process_all_rule:
  assumes run: "process_all env root outf names processed st = (r, st')"
    and init: "I processed st"
    and step_ok: "\<And>f processed st processed' st'.
        I processed st \<Longrightarrow> main_step env root outf f processed st = (Inr processed', st')
          \<Longrightarrow> I processed' st'"
    and step_err: "\<And>f processed st e st'.
        I processed st \<Longrightarrow> main_step env root outf f processed st = (Inl e, st')
          \<Longrightarrow> E e st'"
  shows "case r of Inr final \<Rightarrow> I final st' | Inl e \<Rightarrow> E e st'"
  using run init
proof (induction names arbitrary: processed st)
  case Nil
  then show ?case by auto
next
  case (Cons f rest)
  obtain r1 st1 where s: "main_step env root outf f processed st = (r1, st1)"
    by (cases "main_step env root outf f processed st")
  show ?case
  proof (cases r1)
    case (Inl e)
    with Cons.prems s have "r = Inl e" "st' = st1" by simp_all
    moreover have "E e st1" using step_err [OF Cons.prems(2)] s Inl by simp
    ultimately show ?thesis by simp
  next
    case (Inr processed1)
    with Cons.prems s have "process_all env root outf rest processed1 st1 = (r, st')" by simp
    moreover have "I processed1 st1" using step_ok [OF Cons.prems(2)] s Inr by simp
    ultimately show ?thesis by (rule Cons.IH)
  qed
qed


section \<open>Records of calls\<close>

lemma split_snoc:
  "xs @ [a] = pre @ x # post \<longleftrightarrow>
     (pre = xs \<and> x = a \<and> post = []) \<or> (\<exists>post'. post = post' @ [a] \<and> xs = pre @ x # post')"
  by (cases post rule: rev_cases) auto

lemma written_files_append: "written_files (a @ b) = written_files a @ written_files b"
  by (induction a rule: written_files.induct) simp_all

lemma removes_after_writes_snoc:
  assumes "removes_after_writes root tr"
    and "\<And>p ok. ev = Remove p ok \<Longrightarrow>
           \<exists>f text. p = input_path_of root f \<and> Write (output_path_of root f) text True \<in> set tr"
  shows "removes_after_writes root (tr @ [ev])"
  unfolding removes_after_writes_def
proof (intro allI impI)
  fix pre p ok post
  assume "tr @ [ev] = pre @ Remove p ok # post"
  then consider "pre = tr" "ev = Remove p ok"
    | post' where "tr = pre @ Remove p ok # post'"
    unfolding split_snoc by blast
  then show "\<exists>f text. p = input_path_of root f \<and>
                Write (output_path_of root f) text True \<in> set pre"
  proof cases
    case 1
    then show ?thesis using assms(2) by blast
  next
    case 2
    then show ?thesis using assms(1) unfolding removes_after_writes_def by blast
  qed
qed

lemma only_output_writes_snoc:
  assumes "only_output_writes root tr"
    and "\<And>p text ok. ev = Write p text ok \<Longrightarrow> ok \<and> (\<exists>f. p = output_path_of root f)"
  shows "only_output_writes root (tr @ [ev])"
  using assms unfolding only_output_writes_def by auto

lemma failed_write_last_none:
  assumes "only_output_writes root tr"
  shows "failed_write_last e tr"
  unfolding failed_write_last_def
proof (intro allI impI)
  fix pre p body post
  assume "tr = pre @ Write p body False # post"
  then have "Write p body False \<in> set tr" by simp
  with assms show "post = [] \<and> e = WriteError p"
    unfolding only_output_writes_def by blast
qed

lemma failed_write_last_snoc:
  assumes "only_output_writes root tr"
  shows "failed_write_last (WriteError p) (tr @ [Write p text False])"
  unfolding failed_write_last_def
proof (intro allI impI)
  fix pre q text' post
  assume "tr @ [Write p text False] = pre @ Write q text' False # post"
  then consider "post = []" "q = p"
    | post' where "tr = pre @ Write q text' False # post'"
    unfolding split_snoc by blast
  then show "post = [] \<and> WriteError p = WriteError q"
  proof cases
    case 1
    then show ?thesis by simp
  next
    case 2
    then have "Write q text' False \<in> set tr" by simp
    with assms show ?thesis unfolding only_output_writes_def by blast
  qed
qed

text \<open>The invariant of the loop, and what holds when an exception leaves it.\<close>

lemma loop_invariant:
  assumes run: "process_all env root (output_folder_of root) names processed st = (r, st')"
    and raw: "removes_after_writes root (trace st)"
    and oow: "only_output_writes root (trace st)"
    and wf: "written_files (trace st) = map (output_path_of root) processed"
  shows "case r of
           Inr final \<Rightarrow>
             removes_after_writes root (trace st') \<and> only_output_writes root (trace st') \<and>
             written_files (trace st') = map (output_path_of root) final
         | Inl e \<Rightarrow>
             removes_after_writes root (trace st') \<and> failed_write_last e (trace st') \<and>
             (\<forall>f text. Write (output_path_of root f) text False \<in> set (trace st') \<longrightarrow>
                files st' (input_path_of root f) \<noteq> None)"
proof (rule process_all_rule [OF run,
    where I = "\<lambda>processed st. removes_after_writes root (trace st) \<and>
                 only_output_writes root (trace st) \<and>
                 written_files (trace st) = map (output_path_of root) processed"
      and E = "\<lambda>e st. removes_after_writes root (trace st) \<and> failed_write_last e (trace st) \<and>
                 (\<forall>f text. Write (output_path_of root f) text False \<in> set (trace st) \<longrightarrow>
                    files st (input_path_of root f) \<noteq> None)"])
  show "removes_after_writes root (trace st) \<and> only_output_writes root (trace st) \<and>
        written_files (trace st) = map (output_path_of root) processed"
    using raw oow wf by simp
next
  fix f processed st processed' st'
  assume inv: "removes_after_writes root (trace st) \<and> only_output_writes root (trace st) \<and>
        written_files (trace st) = map (output_path_of root) processed"
    and step: "main_step env root (output_folder_of root) f processed st = (Inr processed', st')"
  let ?inp = "input_path_of root f" and ?outp = "output_path_of root f"
  from main_step_cases [OF step]
  consider "processed' = processed" "trace st' = trace st"
    | ok where "processed' = processed" "trace st' = trace st @ [Read ?inp ok]"
    | cleaned ok where "processed' = processed @ [f]"
        "trace st' = ((trace st @ [Read ?inp True]) @ [Write ?outp cleaned True]) @ [Remove ?inp ok]"
    by auto
  then show "removes_after_writes root (trace st') \<and> only_output_writes root (trace st') \<and>
        written_files (trace st') = map (output_path_of root) processed'"
  proof cases
    case 1
    then show ?thesis using inv by simp
  next
    case 2
    have "removes_after_writes root (trace st')"
      unfolding 2(2) by (intro removes_after_writes_snoc) (use inv in auto)
    moreover have "only_output_writes root (trace st')"
      unfolding 2(2) by (intro only_output_writes_snoc) (use inv in auto)
    moreover have "written_files (trace st') = map (output_path_of root) processed'"
      unfolding 2 using inv by (simp add: written_files_append)
    ultimately show ?thesis by simp
  next
    case 3
    have "removes_after_writes root (trace st')"
      unfolding 3(2)
      by (intro removes_after_writes_snoc) (use inv in auto)
    moreover have "only_output_writes root (trace st')"
      unfolding 3(2)
      by (intro only_output_writes_snoc) (use inv in auto)
    moreover have "written_files (trace st') = map (output_path_of root) processed'"
      unfolding 3 using inv by (simp add: written_files_append)
    ultimately show ?thesis by simp
  qed
next
  fix f processed st e st'
  assume inv: "removes_after_writes root (trace st) \<and> only_output_writes root (trace st) \<and>
        written_files (trace st) = map (output_path_of root) processed"
    and step: "main_step env root (output_folder_of root) f processed st = (Inl e, st')"
  let ?inp = "input_path_of root f" and ?outp = "output_path_of root f"
  from main_step_cases [OF step]
  consider "trace st' = trace st @ [Read ?inp True]"
    | cleaned where "e = WriteError ?outp"
        "trace st' = (trace st @ [Read ?inp True]) @ [Write ?outp cleaned False]"
        "files st' ?inp \<noteq> None"
    by auto
  then show "removes_after_writes root (trace st') \<and> failed_write_last e (trace st') \<and>
        (\<forall>f text. Write (output_path_of root f) text False \<in> set (trace st') \<longrightarrow>
           files st' (input_path_of root f) \<noteq> None)"
  proof cases
    case 1
    have oow: "only_output_writes root (trace st')"
      unfolding 1 by (intro only_output_writes_snoc) (use inv in auto)
    have "removes_after_writes root (trace st')"
      unfolding 1 by (intro removes_after_writes_snoc) (use inv in auto)
    moreover have "failed_write_last e (trace st')"
      using oow by (rule failed_write_last_none)
    moreover have "\<forall>f text. Write (output_path_of root f) text False \<notin> set (trace st')"
      using oow unfolding only_output_writes_def by blast
    ultimately show ?thesis by blast
  next
    case 2
    have oow: "only_output_writes root (trace st @ [Read ?inp True])"
      by (intro only_output_writes_snoc) (use inv in auto)
    have "removes_after_writes root (trace st')"
      unfolding 2(2) by (intro removes_after_writes_snoc) (use inv in auto)
    moreover have "failed_write_last e (trace st')"
      unfolding 2(1,2) using oow by (rule failed_write_last_snoc)
    moreover have "files st' (input_path_of root g) \<noteq> None"
      if "Write (output_path_of root g) body False \<in> set (trace st')" for g body
    proof -
      from that have "output_path_of root g = ?outp \<or>
          Write (output_path_of root g) body False \<in> set (trace st)"
        unfolding 2(2) by auto
      moreover have "Write (output_path_of root g) body False \<notin> set (trace st)"
        using inv unfolding only_output_writes_def by blast
      ultimately have "g = f" using output_path_of_inj by blast
      then show ?thesis using 2(3) by simp
    qed
    ultimately show ?thesis by blast
  qed
qed


lemma process_all_mono:
  assumes "process_all env root (output_folder_of root) names processed st = (Inr final, st')"
  shows "set processed \<subseteq> set final \<and> set final \<subseteq> set processed \<union> set names"
  using assms
proof (induction names arbitrary: processed st)
  case Nil
  then show ?case by auto
next
  case (Cons f rest)
  obtain r1 st1 where s: "main_step env root (output_folder_of root) f processed st = (r1, st1)"
    by (cases "main_step env root (output_folder_of root) f processed st")
  from Cons.prems s obtain processed1 where r1: "r1 = Inr processed1"
    and rest: "process_all env root (output_folder_of root) rest processed1 st1 = (Inr final, st')"
    by (cases r1) auto
  from main_step_cases [OF s] r1 have "processed1 = processed \<or> processed1 = processed @ [f]"
    by auto
  with Cons.IH [OF rest] show ?case by auto
qed

section \<open>The whole run\<close>

lemma open_write_cases:
  assumes "open_write env p body st = (r, st')"
  shows "(r = Inr () \<and> trace st' = trace st @ [Write p body True] \<and>
            files st' = (files st)(p \<mapsto> body))
       \<or> (r = Inl (WriteError p) \<and> trace st' = trace st @ [Write p body False] \<and>
            (\<forall>q. q \<noteq> p \<longrightarrow> files st' q = files st q))"
  using assms
  by (auto simp: open_write_def split: option.splits write_failure.splits)

lemma main_cases:
  assumes "main env root (initial fs ds) = (r, st')"
  shows
   "(\<exists>e. r = Inl e \<and>
       (trace st' = [] \<or> (\<exists>ok. trace st' = [Makedirs (output_folder_of root) ok])))
    \<or> (\<exists>st1 names.
          (trace st1 = [] \<or> trace st1 = [Makedirs (output_folder_of root) True]) \<and>
          listdir env root = Inr names \<and>
          ((\<exists>e. process_all env root (output_folder_of root) names [] st1 = (Inl e, st') \<and>
                r = Inl e)
           \<or> (\<exists>st2. process_all env root (output_folder_of root) names [] st1 = (Inr [], st2) \<and>
                  r = Inr () \<and> trace st' = trace st2 \<and> files st' = files st2)
           \<or> (\<exists>processed st2 st3 r3.
                process_all env root (output_folder_of root) names [] st1 = (Inr processed, st2) \<and>
                processed \<noteq> [] \<and>
                open_write env (processed_list_file_of root) (manifest_text processed) st2 = (r3, st3) \<and>
                r = r3 \<and> trace st' = trace st3 \<and> files st' = files st3)))"
proof -
  let ?outf = "output_folder_of root"
  obtain r1 st1 where mk:
    "(if \<not> path_exists (initial fs ds) ?outf then makedirs env ?outf (initial fs ds)
      else (Inr (), initial fs ds)) = (r1, st1)"
    by (cases "if \<not> path_exists (initial fs ds) ?outf then makedirs env ?outf (initial fs ds)
      else (Inr (), initial fs ds)")
  then have tr1: "trace st1 = [] \<or> (\<exists>ok. trace st1 = [Makedirs ?outf ok] \<and> (ok \<longleftrightarrow> r1 = Inr ()))"
    by (auto simp: makedirs_def initial_def split: if_splits)
  show ?thesis
  proof (cases r1)
    case (Inl e)
    then have "r = Inl e" "st' = st1" using assms mk by (simp_all add: main_def)
    then show ?thesis using tr1 by auto
  next
    case (Inr u)
    then have start: "trace st1 = [] \<or> trace st1 = [Makedirs ?outf True]" using tr1 by auto
    show ?thesis
    proof (cases "listdir env root")
      case (Inl e)
      then have "r = Inl e" "st' = st1" using assms mk Inr by (simp_all add: main_def)
      then show ?thesis using tr1 by auto
    next
      case names: (Inr names)
      obtain r2 st2 where pa: "process_all env root ?outf names [] st1 = (r2, st2)"
        by (cases "process_all env root ?outf names [] st1")
      show ?thesis
      proof (cases r2)
        case (Inl e)
        then have "r = Inl e" "st' = st2" using assms mk Inr names pa by (simp_all add: main_def)
        then show ?thesis using start names pa Inl by auto
      next
        case processed: (Inr processed)
        show ?thesis
        proof (cases "processed = []")
          case True
          then have "r = Inr ()" "trace st' = trace st2" "files st' = files st2"
            using assms mk Inr names pa processed by (auto simp: main_def)
          then show ?thesis using start names pa processed True by blast
        next
          case False
          obtain r3 st3 where ow:
            "open_write env (processed_list_file_of root) (manifest_text processed) st2 = (r3, st3)"
            by (cases "open_write env (processed_list_file_of root) (manifest_text processed) st2")
          have "r = r3 \<and> trace st' = trace st3 \<and> files st' = files st3"
            using assms mk Inr names pa processed False ow
            by (cases r3) (auto simp: main_def)
          then show ?thesis using start names pa processed False ow by blast
        qed
      qed
    qed
  qed
qed


lemma removes_after_writes_start:
  "tr = [] \<or> tr = [Makedirs p ok] \<Longrightarrow> removes_after_writes root tr"
  unfolding removes_after_writes_def by (auto simp: Cons_eq_append_conv append_eq_Cons_conv)

lemma only_output_writes_start:
  "tr = [] \<or> tr = [Makedirs p ok] \<Longrightarrow> only_output_writes root tr"
  unfolding only_output_writes_def by auto

lemma failed_write_absent:
  assumes "only_output_writes root tr"
  shows "Write p body False \<notin> set (tr @ [Write q body' True])"
  using assms unfolding only_output_writes_def by auto

lemma main_run:
  assumes "main env root (initial fs ds) = (r, st')"
  shows "removes_after_writes root (trace st') \<and>
         (case r of
            Inl e \<Rightarrow> failed_write_last e (trace st')
          | Inr u \<Rightarrow> (\<forall>p body. Write p body False \<notin> set (trace st'))) \<and>
         (\<forall>f body. Write (output_path_of root f) body False \<in> set (trace st') \<longrightarrow>
            files st' (input_path_of root f) \<noteq> None)"
proof -
  let ?outf = "output_folder_of root" and ?list = "processed_list_file_of root"
  from main_cases [OF assms]
  consider
    (early) e where "r = Inl e" "trace st' = [] \<or> (\<exists>ok. trace st' = [Makedirs ?outf ok])"
  | (abort) st1 names e where "trace st1 = [] \<or> trace st1 = [Makedirs ?outf True]"
      "process_all env root ?outf names [] st1 = (Inl e, st')" "r = Inl e"
  | (none) st1 names st2 where "trace st1 = [] \<or> trace st1 = [Makedirs ?outf True]"
      "process_all env root ?outf names [] st1 = (Inr [], st2)" "r = Inr ()"
      "trace st' = trace st2"
  | (some) st1 names processed st2 st3 where
      "trace st1 = [] \<or> trace st1 = [Makedirs ?outf True]"
      "process_all env root ?outf names [] st1 = (Inr processed, st2)"
      "open_write env ?list (manifest_text processed) st2 = (r, st3)"
      "trace st' = trace st3" "files st' = files st3"
    by blast
  then show ?thesis
  proof cases
    case early
    then have "removes_after_writes root (trace st')"
      by (auto intro: removes_after_writes_start)
    moreover have oow: "only_output_writes root (trace st')"
      using early by (auto intro: only_output_writes_start)
    moreover have "failed_write_last e (trace st')" using oow by (rule failed_write_last_none)
    moreover have "\<forall>f body. Write (output_path_of root f) body False \<notin> set (trace st')"
      using oow unfolding only_output_writes_def by blast
    ultimately show ?thesis using early(1) by simp
  next
    case abort
    have "written_files (trace st1) = map (output_path_of root) []" using abort(1) by auto
    from loop_invariant [OF abort(2) removes_after_writes_start [OF abort(1)]
        only_output_writes_start [OF abort(1)] this]
    show ?thesis using abort(3) by simp
  next
    case none
    have "written_files (trace st1) = map (output_path_of root) []" using none(1) by auto
    from loop_invariant [OF none(2) removes_after_writes_start [OF none(1)]
        only_output_writes_start [OF none(1)] this]
    have "removes_after_writes root (trace st2)" and oow: "only_output_writes root (trace st2)"
      by simp_all
    moreover have "\<forall>p body. Write p body False \<notin> set (trace st2)"
      using oow unfolding only_output_writes_def by blast
    ultimately show ?thesis using none(3,4) by simp
  next
    case some
    have "written_files (trace st1) = map (output_path_of root) []" using some(1) by auto
    from loop_invariant [OF some(2) removes_after_writes_start [OF some(1)]
        only_output_writes_start [OF some(1)] this]
    have raw: "removes_after_writes root (trace st2)"
      and oow: "only_output_writes root (trace st2)"
      by simp_all
    from open_write_cases [OF some(3)]
    consider "r = Inr ()" "trace st3 = trace st2 @ [Write ?list (manifest_text processed) True]"
      | "r = Inl (WriteError ?list)"
        "trace st3 = trace st2 @ [Write ?list (manifest_text processed) False]"
      by blast
    then show ?thesis
    proof cases
      case 1
      have "removes_after_writes root (trace st')"
        unfolding some(4) 1(2) using raw by (rule removes_after_writes_snoc) simp
      moreover have "\<forall>p body. Write p body False \<notin> set (trace st')"
        unfolding some(4) 1(2) using failed_write_absent [OF oow] by blast
      ultimately show ?thesis using 1(1) by simp
    next
      case 2
      have "removes_after_writes root (trace st')"
        unfolding some(4) 2(2) using raw by (rule removes_after_writes_snoc) simp
      moreover have "failed_write_last (WriteError ?list) (trace st')"
        unfolding some(4) 2(2) using oow by (rule failed_write_last_snoc)
      moreover have "Write (output_path_of root f) body False \<notin> set (trace st')" for f body
      proof -
        have "Write (output_path_of root f) body False \<notin> set (trace st2)"
          using oow unfolding only_output_writes_def by blast
        moreover have "output_path_of root f \<noteq> ?list"
          using manifest_neq_output [of root f] by simp
        ultimately show ?thesis unfolding some(4) 2(2) by simp
      qed
      ultimately show ?thesis using 2(1) by simp
    qed
  qed
qed

lemma filter_outputs:
  "filter (\<lambda>p. p \<noteq> processed_list_file_of root) (map (output_path_of root) fs) =
     map (output_path_of root) fs"
  using manifest_neq_output [of root] by (induction fs) (auto simp: eq_commute)

lemma main_completed:
  assumes "main env root (initial fs ds) = (Inr (), st')"
  shows "\<exists>processed.
     map (output_path_of root) processed =
       filter (\<lambda>p. p \<noteq> processed_list_file_of root) (written_files (trace st')) \<and>
     (processed \<noteq> [] \<longrightarrow>
        (\<exists>pre. trace st' = pre @ [Write (processed_list_file_of root) (manifest_text processed) True] \<and>
           (\<forall>body ok. Write (processed_list_file_of root) body ok \<notin> set pre)) \<and>
        files st' (processed_list_file_of root) = Some (manifest_text processed)) \<and>
     (processed = [] \<longrightarrow>
        (\<forall>body ok. Write (processed_list_file_of root) body ok \<notin> set (trace st')))"
proof -
  let ?outf = "output_folder_of root" and ?list = "processed_list_file_of root"
  from main_cases [OF assms]
  consider
    (none) st1 names st2 where "trace st1 = [] \<or> trace st1 = [Makedirs ?outf True]"
      "process_all env root ?outf names [] st1 = (Inr [], st2)" "trace st' = trace st2"
  | (some) st1 names processed st2 st3 where
      "trace st1 = [] \<or> trace st1 = [Makedirs ?outf True]"
      "process_all env root ?outf names [] st1 = (Inr processed, st2)" "processed \<noteq> []"
      "open_write env ?list (manifest_text processed) st2 = (Inr (), st3)"
      "trace st' = trace st3" "files st' = files st3"
    by blast
  then show ?thesis
  proof cases
    case none
    have "written_files (trace st1) = map (output_path_of root) []" using none(1) by auto
    from loop_invariant [OF none(2) removes_after_writes_start [OF none(1)]
        only_output_writes_start [OF none(1)] this]
    have oow: "only_output_writes root (trace st2)" and wf: "written_files (trace st2) = []"
      by simp_all
    have "\<forall>body ok. Write ?list body ok \<notin> set (trace st')"
      using oow manifest_neq_output [of root] unfolding only_output_writes_def none(3) by blast
    then show ?thesis using wf none(3) by (intro exI [of _ "[]"]) simp
  next
    case some
    have "written_files (trace st1) = map (output_path_of root) []" using some(1) by auto
    from loop_invariant [OF some(2) removes_after_writes_start [OF some(1)]
        only_output_writes_start [OF some(1)] this]
    have oow: "only_output_writes root (trace st2)"
      and wf: "written_files (trace st2) = map (output_path_of root) processed"
      by simp_all
    from open_write_cases [OF some(4)]
    have tr: "trace st3 = trace st2 @ [Write ?list (manifest_text processed) True]"
      and fl: "files st3 = (files st2)(?list \<mapsto> manifest_text processed)"
      by simp_all
    have "map (output_path_of root) processed =
            filter (\<lambda>p. p \<noteq> ?list) (written_files (trace st'))"
      unfolding some(5) tr by (simp add: written_files_append wf filter_outputs)
    moreover have "\<forall>body ok. Write ?list body ok \<notin> set (trace st2)"
      using oow manifest_neq_output [of root] unfolding only_output_writes_def by blast
    moreover have "files st' ?list = Some (manifest_text processed)"
      unfolding some(6) fl by simp
    ultimately show ?thesis using some(3,5) tr by (intro exI [of _ processed]) auto
  qed
qed

lemma splitlines_from_line:
  "\<forall>c\<in>set f. \<not> is_linebreak c \<Longrightarrow>
     splitlines_from cur (f @ newline # rest) = (cur @ f) # splitlines_from [] rest"
proof (induction f arbitrary: cur)
  case Nil
  then show ?case by (simp add: is_linebreak_def)
next
  case (Cons c f)
  then have "\<not> is_linebreak c" by simp
  moreover from this have "c \<noteq> 13" by (auto simp: is_linebreak_def)
  ultimately show ?case using Cons by simp
qed

lemma splitlines_manifest_text:
  "\<forall>f\<in>set names. \<forall>c\<in>set f. \<not> is_linebreak c \<Longrightarrow>
     splitlines (manifest_text names) = names"
  unfolding splitlines_def manifest_text_def
  by (induction names) (simp_all add: splitlines_from_line)

section \<open>The Diff Reporter's output\<close>

lemma print_diff_eq:
  "print_diff k d =
     map (\<lambda>i. ustr ''Line '' @ str_nat (k + i) @ ustr '': '' @ d ! i)
       (filter (\<lambda>i. is_marker (d ! i)) [0..<length d])"
proof (induction d arbitrary: k)
  case Nil
  then show ?case by simp
next
  case (Cons line rest)
  have upt: "[0..<length (line # rest)] = 0 # map Suc [0..<length rest]"
    by (simp add: upt_conv_Cons map_Suc_upt del: upt_Suc)
  show ?case
    unfolding upt by (simp add: Cons.IH filter_map comp_def)
qed

lemmas diff_defs = show_differences_def splitlines_def is_linebreak_def is_marker_def
  startswith_def ustr_def Let_def

lemma str_nat_digit: "n < 10 \<Longrightarrow> str_nat n = [48 + n]"
  by (simp add: str_nat.simps)

text \<open>
  C9 (Diff Reporter output). After the header, \<open>show_differences\<close> prints one line
  for each line of the edit script that starts with \<open>- \<close> or \<open>+ \<close>, in order, and
  nothing for any other line. The line printed for the entry at position \<open>i\<close>
  (counted from 0) is tagged \<open>i + 1\<close>: the counter advances on every entry of the edit
  script, printed or not, so it is neither a count of the printed lines nor a line
  number of either text.
\<close>

theorem show_differences_output:
  "show_differences d original_text cleaned_text =
     (let diff = d (splitlines original_text)
                   (if splitlines cleaned_text = [] then [cleaned_text]
                    else splitlines cleaned_text)
      in ustr ''Differences between original and cleaned text:'' #
         map (\<lambda>i. ustr ''Line '' @ str_nat (Suc i) @ ustr '': '' @ diff ! i)
           (filter (\<lambda>i. startswith (ustr ''- '') (diff ! i) \<or> startswith (ustr ''+ '') (diff ! i))
              [0..<length diff]))"
  by (simp add: show_differences_def Let_def print_diff_eq is_marker_def)

theorem show_differences_output_witness:
  "show_differences example_ndiff (ustr ''title'' @ [newline] @ ustr ''A-B'')
       (ustr ''title'' @ [newline] @ ustr ''AB'') =
     [ustr ''Differences between original and cleaned text:'',
      ustr ''Line 2: - A-B'', ustr ''Line 3: + AB'']"
  using show_differences_output [of example_ndiff "ustr ''title'' @ [newline] @ ustr ''A-B''"
      "ustr ''title'' @ [newline] @ ustr ''AB''"]
  by (simp add: diff_defs str_nat_digit)

section \<open>The batch run's guarantees\<close>

lemmas batch_defs =
  main_def main_step_def process_file_def open_read_def open_write_def os_remove_def
  makedirs_def path_exists_def path_join_def output_folder_of_def processed_list_file_of_def
  input_path_of_def output_path_of_def manifest_text_def print_def log_event_def initial_def
  endswith_def basename_def example_env_def example_files_def example_root_def
  example_initial_def env_write_fails_def env_remove_fails_def env_read_fails_def
  env_tokenizer_fails_def diff_defs run_defs

text \<open>
  C5 (write before delete). In every run of \<open>main\<close>, completed or aborted: every
  attempt to remove a path comes after a successful write of the output of a file
  name whose input path it is; a failed write is the last file-system call of the run,
  and its error is the result of \<open>main\<close>; and when the write of the output of a file
  name has failed, the file at the input path of that name is present at the end.
\<close>

theorem write_before_delete:
  assumes "main env root (initial fs ds) = (r, st')"
  shows "(\<forall>pre p ok post. trace st' = pre @ Remove p ok # post \<longrightarrow>
            (\<exists>f body. p = input_path_of root f \<and>
               Write (output_path_of root f) body True \<in> set pre)) \<and>
         (\<forall>pre p body post. trace st' = pre @ Write p body False # post \<longrightarrow>
            post = [] \<and> r = Inl (WriteError p)) \<and>
         (\<forall>f body. Write (output_path_of root f) body False \<in> set (trace st') \<longrightarrow>
            files st' (input_path_of root f) \<noteq> None)"
proof -
  note run = main_run [OF assms]
  have "\<forall>pre p ok post. trace st' = pre @ Remove p ok # post \<longrightarrow>
            (\<exists>f body. p = input_path_of root f \<and>
               Write (output_path_of root f) body True \<in> set pre)"
    using run unfolding removes_after_writes_def by blast
  moreover have "\<forall>pre p body post. trace st' = pre @ Write p body False # post \<longrightarrow>
            post = [] \<and> r = Inl (WriteError p)"
  proof (cases r)
    case (Inl e)
    then have "failed_write_last e (trace st')" using run by simp
    then show ?thesis unfolding failed_write_last_def Inl by blast
  next
    case (Inr u)
    then have none: "\<forall>p body. Write p body False \<notin> set (trace st')" using run by simp
    show ?thesis
    proof (intro allI impI)
      fix pre p body post
      assume "trace st' = pre @ Write p body False # post"
      then have "Write p body False \<in> set (trace st')" by simp
      with none show "post = [] \<and> r = Inl (WriteError p)" by blast
    qed
  qed
  ultimately show ?thesis using run by blast
qed

lemma example_write_fails_result:
  "fst (main (env_write_fails (ustr ''/r/editedbooktext/edited_b.txt'')) example_root
          example_initial) =
     Inl (WriteError (ustr ''/r/editedbooktext/edited_b.txt''))"
  by (simp add: batch_defs)

lemma example_write_fails_trace:
  "trace (snd (main (env_write_fails (ustr ''/r/editedbooktext/edited_b.txt'')) example_root
          example_initial)) =
     [Makedirs (ustr ''/r/editedbooktext'') True,
      Read (ustr ''/r/a.txt'') True,
      Write (ustr ''/r/editedbooktext/edited_a.txt'') (ustr ''xy z'') True,
      Remove (ustr ''/r/a.txt'') True,
      Read (ustr ''/r/b.txt'') True,
      Write (ustr ''/r/editedbooktext/edited_b.txt'') (ustr ''pq'') False]"
  by (simp add: batch_defs)

theorem write_before_delete_witness:
  "trace (snd (main (env_write_fails (ustr ''/r/editedbooktext/edited_b.txt'')) example_root
          example_initial)) =
     [Makedirs (ustr ''/r/editedbooktext'') True,
      Read (ustr ''/r/a.txt'') True,
      Write (ustr ''/r/editedbooktext/edited_a.txt'') (ustr ''xy z'') True] @
     Remove (ustr ''/r/a.txt'') True #
     [Read (ustr ''/r/b.txt'') True,
      Write (ustr ''/r/editedbooktext/edited_b.txt'') (ustr ''pq'') False] \<and>
   (\<exists>f body. ustr ''/r/a.txt'' = input_path_of example_root f \<and>
      Write (output_path_of example_root f) body True \<in>
        set [Makedirs (ustr ''/r/editedbooktext'') True,
             Read (ustr ''/r/a.txt'') True,
             Write (ustr ''/r/editedbooktext/edited_a.txt'') (ustr ''xy z'') True]) \<and>
   fst (main (env_write_fails (ustr ''/r/editedbooktext/edited_b.txt'')) example_root
          example_initial) =
     Inl (WriteError (ustr ''/r/editedbooktext/edited_b.txt'')) \<and>
   files (snd (main (env_write_fails (ustr ''/r/editedbooktext/edited_b.txt'')) example_root
          example_initial)) (input_path_of example_root (ustr ''b.txt'')) \<noteq> None"
proof -
  let ?M = "main (env_write_fails (ustr ''/r/editedbooktext/edited_b.txt'')) example_root
          (initial example_files {})"
  have M: "?M = (fst ?M, snd ?M)" by simp
  note wbd = write_before_delete [OF M]
  have tr: "trace (snd ?M) =
     [Makedirs (ustr ''/r/editedbooktext'') True,
      Read (ustr ''/r/a.txt'') True,
      Write (ustr ''/r/editedbooktext/edited_a.txt'') (ustr ''xy z'') True] @
     Remove (ustr ''/r/a.txt'') True #
     [Read (ustr ''/r/b.txt'') True,
      Write (ustr ''/r/editedbooktext/edited_b.txt'') (ustr ''pq'') False]"
    using example_write_fails_trace by (simp add: example_initial_def)
  have outb: "output_path_of example_root (ustr ''b.txt'') = ustr ''/r/editedbooktext/edited_b.txt''"
    by (simp add: batch_defs)
  have "Write (output_path_of example_root (ustr ''b.txt'')) (ustr ''pq'') False \<in> set (trace (snd ?M))"
    unfolding tr outb by simp
  with wbd have present: "files (snd ?M) (input_path_of example_root (ustr ''b.txt'')) \<noteq> None"
    by blast
  from wbd tr have "\<exists>f body. ustr ''/r/a.txt'' = input_path_of example_root f \<and>
      Write (output_path_of example_root f) body True \<in>
        set [Makedirs (ustr ''/r/editedbooktext'') True,
             Read (ustr ''/r/a.txt'') True,
             Write (ustr ''/r/editedbooktext/edited_a.txt'') (ustr ''xy z'') True]"
    by blast
  then show ?thesis
    using tr present example_write_fails_result by (simp add: example_initial_def)
qed

text \<open>
  C6 (error propagation). In the example world where the write of the output of the
  first text file fails, nothing catches the error: it is the result of \<open>main\<close>,
  nothing is printed, the second text file is never read and no output is written for
  it. The read and the removal are in \<open>try\<close> blocks (C10, C7); the write is not.
\<close>

theorem write_error_aborts_batch:
  "fst (main (env_write_fails (ustr ''/r/editedbooktext/edited_a.txt'')) example_root
          example_initial) =
     Inl (WriteError (ustr ''/r/editedbooktext/edited_a.txt'')) \<and>
   trace (snd (main (env_write_fails (ustr ''/r/editedbooktext/edited_a.txt'')) example_root
          example_initial)) =
     [Makedirs (ustr ''/r/editedbooktext'') True,
      Read (ustr ''/r/a.txt'') True,
      Write (ustr ''/r/editedbooktext/edited_a.txt'') (ustr ''xy z'') False] \<and>
   listdir (env_write_fails (ustr ''/r/editedbooktext/edited_a.txt'')) example_root =
     Inr [ustr ''a.txt'', ustr ''editortext.py'', ustr ''b.txt''] \<and>
   files (snd (main (env_write_fails (ustr ''/r/editedbooktext/edited_a.txt'')) example_root
          example_initial)) (ustr ''/r/editedbooktext/edited_b.txt'') = None \<and>
   console (snd (main (env_write_fails (ustr ''/r/editedbooktext/edited_a.txt'')) example_root
          example_initial)) = []"
  by (simp add: batch_defs)

theorem write_error_aborts_batch_witness:
  "fst (main (env_write_fails (ustr ''/r/editedbooktext/edited_a.txt'')) example_root
          example_initial) \<noteq> Inr () \<and>
   Read (ustr ''/r/b.txt'') True \<notin>
     set (trace (snd (main (env_write_fails (ustr ''/r/editedbooktext/edited_a.txt''))
                        example_root example_initial))) \<and>
   Read (ustr ''/r/b.txt'') False \<notin>
     set (trace (snd (main (env_write_fails (ustr ''/r/editedbooktext/edited_a.txt''))
                        example_root example_initial)))"
  using write_error_aborts_batch by (simp add: ustr_def)

text \<open>
  C7 (a failed removal is not fatal). When the output of a text file has been written
  and the removal of the file then fails, the file name is appended to
  \<open>processed_files\<close> all the same, the removal changes no file, the loop goes on with
  the remaining names after printing the error, and the name is in the list with which
  the loop ends.
\<close>

theorem source_delete_failure_nonfatal:
  assumes suffix: "endswith (ustr ''.txt'') filename"
    and ok: "process_file env (input_path_of root filename) (output_path_of root filename) st =
               (Inr True, st1)"
    and del: "os_remove env (input_path_of root filename) st1 = (Inl e, st2)"
  shows "process_all env root (output_folder_of root) (filename # rest) processed st =
           process_all env root (output_folder_of root) rest (processed @ [filename])
             (print (ustr ''Error deleting file '' @ filename @ ustr '': '' @ message env e) st2) \<and>
         files st2 = files st1 \<and>
         (\<forall>final st'.
            process_all env root (output_folder_of root) (filename # rest) processed st =
              (Inr final, st') \<longrightarrow> filename \<in> set final)"
proof -
  let ?st3 = "print (ustr ''Error deleting file '' @ filename @ ustr '': '' @ message env e) st2"
  have step: "main_step env root (output_folder_of root) filename processed st =
                (Inr (processed @ [filename]), ?st3)"
    using del by (simp add: main_step_txt [OF suffix ok])
  then have cont: "process_all env root (output_folder_of root) (filename # rest) processed st =
           process_all env root (output_folder_of root) rest (processed @ [filename]) ?st3"
    by simp
  have kept: "files st2 = files st1" using os_remove_cases [OF del] by auto
  have "filename \<in> set final"
    if "process_all env root (output_folder_of root) (filename # rest) processed st =
          (Inr final, st')" for final st'
  proof -
    from that cont
    have "process_all env root (output_folder_of root) rest (processed @ [filename]) ?st3 =
            (Inr final, st')" by simp
    from process_all_mono [OF this] show ?thesis by auto
  qed
  with cont kept show ?thesis by blast
qed

lemma example_remove_fails_step:
  "process_file (env_remove_fails (ustr ''/r/a.txt'')) (input_path_of example_root (ustr ''a.txt''))
      (output_path_of example_root (ustr ''a.txt'')) example_initial =
   (Inr True, snd (process_file (env_remove_fails (ustr ''/r/a.txt''))
      (input_path_of example_root (ustr ''a.txt''))
      (output_path_of example_root (ustr ''a.txt'')) example_initial))"
proof -
  have "fst (process_file (env_remove_fails (ustr ''/r/a.txt''))
      (input_path_of example_root (ustr ''a.txt''))
      (output_path_of example_root (ustr ''a.txt'')) example_initial) = Inr True"
    by (simp add: batch_defs)
  then show ?thesis by (metis prod.collapse)
qed

lemma example_remove_fails_remove:
  "os_remove (env_remove_fails (ustr ''/r/a.txt'')) (input_path_of example_root (ustr ''a.txt''))
     (snd (process_file (env_remove_fails (ustr ''/r/a.txt''))
        (input_path_of example_root (ustr ''a.txt''))
        (output_path_of example_root (ustr ''a.txt'')) example_initial)) =
   (Inl (RemoveError (ustr ''/r/a.txt'')),
    snd (os_remove (env_remove_fails (ustr ''/r/a.txt''))
       (input_path_of example_root (ustr ''a.txt''))
       (snd (process_file (env_remove_fails (ustr ''/r/a.txt''))
          (input_path_of example_root (ustr ''a.txt''))
          (output_path_of example_root (ustr ''a.txt'')) example_initial))))"
proof -
  have "fst (os_remove (env_remove_fails (ustr ''/r/a.txt''))
       (input_path_of example_root (ustr ''a.txt''))
       (snd (process_file (env_remove_fails (ustr ''/r/a.txt''))
          (input_path_of example_root (ustr ''a.txt''))
          (output_path_of example_root (ustr ''a.txt'')) example_initial))) =
     Inl (RemoveError (ustr ''/r/a.txt''))"
    by (simp add: batch_defs)
  then show ?thesis by (metis prod.collapse)
qed

lemma example_remove_fails_loop:
  "fst (process_all (env_remove_fails (ustr ''/r/a.txt'')) example_root
          (output_folder_of example_root) [ustr ''a.txt'', ustr ''b.txt''] [] example_initial) =
     Inr [ustr ''a.txt'', ustr ''b.txt'']"
  by (simp add: batch_defs)

theorem source_delete_failure_nonfatal_witness:
  "endswith (ustr ''.txt'') (ustr ''a.txt'') \<and>
   fst (process_all (env_remove_fails (ustr ''/r/a.txt'')) example_root
          (output_folder_of example_root) [ustr ''a.txt'', ustr ''b.txt''] [] example_initial) =
     Inr [ustr ''a.txt'', ustr ''b.txt''] \<and>
   ustr ''a.txt'' \<in> set [ustr ''a.txt'', ustr ''b.txt'']"
proof -
  have suffix: "endswith (ustr ''.txt'') (ustr ''a.txt'')" by (simp add: batch_defs)
  note nonfatal = source_delete_failure_nonfatal
    [OF suffix example_remove_fails_step example_remove_fails_remove,
     of "[ustr ''b.txt'']" "[]"]
  let ?P = "process_all (env_remove_fails (ustr ''/r/a.txt'')) example_root
          (output_folder_of example_root) [ustr ''a.txt'', ustr ''b.txt''] [] example_initial"
  have "?P = (Inr [ustr ''a.txt'', ustr ''b.txt''], snd ?P)"
    using example_remove_fails_loop by (metis prod.collapse)
  with nonfatal have "ustr ''a.txt'' \<in> set [ustr ''a.txt'', ustr ''b.txt'']" by blast
  with suffix example_remove_fails_loop show ?thesis by blast
qed

text \<open>
  C8 (the list file), for a run of \<open>main\<close> that returns normally. There is a list
  \<open>processed\<close> of file names whose output paths are exactly the paths written
  successfully during the loop, in order. If it is not empty, the last file-system call
  of the run writes the list file, no earlier call writes it, and the file then holds
  exactly the names of \<open>processed\<close>, each followed by a line feed, whatever it held
  before; if it is empty, the list file is not written. When no name contains a line
  break, the lines of that text are the names.
\<close>

theorem manifest_written_at_end:
  assumes "main env root (initial fs ds) = (Inr (), st')"
  shows "\<exists>processed.
     map (output_path_of root) processed =
       filter (\<lambda>p. p \<noteq> processed_list_file_of root) (written_files (trace st')) \<and>
     (processed \<noteq> [] \<longrightarrow>
        (\<exists>pre. trace st' = pre @ [Write (processed_list_file_of root) (manifest_text processed) True] \<and>
           (\<forall>body ok. Write (processed_list_file_of root) body ok \<notin> set pre)) \<and>
        files st' (processed_list_file_of root) = Some (manifest_text processed)) \<and>
     (processed = [] \<longrightarrow>
        (\<forall>body ok. Write (processed_list_file_of root) body ok \<notin> set (trace st'))) \<and>
     ((\<forall>f\<in>set processed. \<forall>c\<in>set f. \<not> is_linebreak c) \<longrightarrow>
        splitlines (manifest_text processed) = processed)"
proof -
  from main_completed [OF assms] obtain processed where
    written: "map (output_path_of root) processed =
       filter (\<lambda>p. p \<noteq> processed_list_file_of root) (written_files (trace st'))"
    and some: "processed \<noteq> [] \<longrightarrow>
        (\<exists>pre. trace st' = pre @ [Write (processed_list_file_of root) (manifest_text processed) True] \<and>
           (\<forall>body ok. Write (processed_list_file_of root) body ok \<notin> set pre)) \<and>
        files st' (processed_list_file_of root) = Some (manifest_text processed)"
    and none: "processed = [] \<longrightarrow>
        (\<forall>body ok. Write (processed_list_file_of root) body ok \<notin> set (trace st'))"
    by blast
  have "(\<forall>f\<in>set processed. \<forall>c\<in>set f. \<not> is_linebreak c) \<longrightarrow>
        splitlines (manifest_text processed) = processed"
    by (intro impI) (rule splitlines_manifest_text)
  with written some none show ?thesis
    by (intro exI [of _ processed] conjI)
qed

lemma example_run_result: "fst (main example_env example_root example_initial) = Inr ()"
  by (simp add: batch_defs)

lemma example_run_written:
  "written_files (trace (snd (main example_env example_root example_initial))) =
     [ustr ''/r/editedbooktext/edited_a.txt'', ustr ''/r/editedbooktext/edited_b.txt'',
      ustr ''/r/editedbook_list.txt'']"
  by (simp add: batch_defs)

lemma example_run_manifest:
  "files (snd (main example_env example_root example_initial))
     (processed_list_file_of example_root) =
   Some (ustr ''a.txt'' @ [newline] @ ustr ''b.txt'' @ [newline])"
  by (simp add: batch_defs)

theorem manifest_written_at_end_witness:
  "fst (main example_env example_root example_initial) = Inr () \<and>
   files (snd (main example_env example_root example_initial))
     (processed_list_file_of example_root) =
   Some (ustr ''a.txt'' @ [newline] @ ustr ''b.txt'' @ [newline]) \<and>
   splitlines (ustr ''a.txt'' @ [newline] @ ustr ''b.txt'' @ [newline]) =
     [ustr ''a.txt'', ustr ''b.txt''] \<and>
   (\<exists>processed. processed \<noteq> [] \<and>
      map (output_path_of example_root) processed =
        filter (\<lambda>p. p \<noteq> processed_list_file_of example_root)
          (written_files (trace (snd (main example_env example_root example_initial)))) \<and>
      files (snd (main example_env example_root example_initial))
        (processed_list_file_of example_root) = Some (manifest_text processed))"
proof -
  let ?M = "main example_env example_root (initial example_files {})"
  have "?M = (Inr (), snd ?M)"
    using example_run_result by (metis prod.collapse example_initial_def)
  from manifest_written_at_end [OF this] obtain processed where
    p: "map (output_path_of example_root) processed =
          filter (\<lambda>p. p \<noteq> processed_list_file_of example_root) (written_files (trace (snd ?M)))"
    and q: "processed \<noteq> [] \<longrightarrow>
          files (snd ?M) (processed_list_file_of example_root) = Some (manifest_text processed)"
    by blast
  have "filter (\<lambda>p. p \<noteq> processed_list_file_of example_root) (written_files (trace (snd ?M))) \<noteq> []"
    using example_run_written by (simp add: batch_defs)
  with p have "processed \<noteq> []" by auto
  moreover have "splitlines (ustr ''a.txt'' @ [newline] @ ustr ''b.txt'' @ [newline]) =
     [ustr ''a.txt'', ustr ''b.txt'']"
    by (simp add: diff_defs)
  ultimately show ?thesis
    using p q example_run_result example_run_manifest
    unfolding example_initial_def by blast
qed

text \<open>
  C8 does not hold of a run that an exception leaves. In the example world where the
  tokenizer raises on the text of the second file, the first file is processed (its
  output is written and the file is removed), and the run ends without a list file.
\<close>

theorem manifest_missing_after_abort:
  "fst (main (env_tokenizer_fails (ustr ''p_q?'')) example_root example_initial) =
     Inl TokenizerError \<and>
   trace (snd (main (env_tokenizer_fails (ustr ''p_q?'')) example_root example_initial)) =
     [Makedirs (ustr ''/r/editedbooktext'') True,
      Read (ustr ''/r/a.txt'') True,
      Write (ustr ''/r/editedbooktext/edited_a.txt'') (ustr ''xy z'') True,
      Remove (ustr ''/r/a.txt'') True,
      Read (ustr ''/r/b.txt'') True] \<and>
   files (snd (main (env_tokenizer_fails (ustr ''p_q?'')) example_root example_initial))
     (ustr ''/r/editedbooktext/edited_a.txt'') = Some (ustr ''xy z'') \<and>
   files (snd (main (env_tokenizer_fails (ustr ''p_q?'')) example_root example_initial))
     (ustr ''/r/a.txt'') = None \<and>
   files (snd (main (env_tokenizer_fails (ustr ''p_q?'')) example_root example_initial))
     (processed_list_file_of example_root) = None"
  by (simp add: batch_defs)

text \<open>
  C10 (a read error changes nothing). When the file of a text-file name is missing or
  reading it fails, \<open>process_file\<close> returns \<open>False\<close>, and the iteration leaves
  \<open>processed_files\<close>, the files and the directories as they were: the only
  file-system call made is the failed read, so no output is written and nothing is
  removed. If the name is neither in \<open>processed_files\<close> already nor listed again, it
  is not in the list with which the loop ends.
\<close>

theorem read_error_leaves_file_untouched:
  assumes suffix: "endswith (ustr ''.txt'') filename"
    and fails: "files st (input_path_of root filename) = None \<or>
                read_fails env (input_path_of root filename)"
  shows "\<exists>st'.
     process_file env (input_path_of root filename) (output_path_of root filename) st =
       (Inr False, st') \<and>
     main_step env root (output_folder_of root) filename processed st = (Inr processed, st') \<and>
     files st' = files st \<and> dirs st' = dirs st \<and>
     trace st' = trace st @ [Read (input_path_of root filename) False] \<and>
     (\<forall>rest final st''.
        filename \<notin> set processed \<and> filename \<notin> set rest \<and>
        process_all env root (output_folder_of root) (filename # rest) processed st =
          (Inr final, st'') \<longrightarrow> filename \<notin> set final)"
proof -
  let ?inp = "input_path_of root filename"
  let ?st' = "print (ustr ''Error reading file '' @ ?inp @ ustr '': '' @
                message env (ReadError ?inp)) (log_event (Read ?inp False) st)"
  have pf: "process_file env ?inp (output_path_of root filename) st = (Inr False, ?st')"
    using fails by (auto simp: process_file_def open_read_def split: option.splits)
  have step: "main_step env root (output_folder_of root) filename processed st =
                (Inr processed, ?st')"
    by (simp add: main_step_txt [OF suffix pf])
  have "filename \<notin> set final"
    if "filename \<notin> set processed" "filename \<notin> set rest"
      "process_all env root (output_folder_of root) (filename # rest) processed st =
         (Inr final, st'')" for rest final st''
  proof -
    from that(3) step
    have "process_all env root (output_folder_of root) rest processed ?st' = (Inr final, st'')"
      by simp
    from process_all_mono [OF this] that(1,2) show ?thesis by auto
  qed
  with pf step show ?thesis by (intro exI [of _ ?st']) auto
qed

lemma example_read_fails_loop:
  "fst (process_all (env_read_fails (ustr ''/r/a.txt'')) example_root
          (output_folder_of example_root) [ustr ''a.txt'', ustr ''b.txt''] [] example_initial) =
     Inr [ustr ''b.txt'']"
  by (simp add: batch_defs)

theorem read_error_leaves_file_untouched_witness:
  "endswith (ustr ''.txt'') (ustr ''a.txt'') \<and>
   read_fails (env_read_fails (ustr ''/r/a.txt'')) (input_path_of example_root (ustr ''a.txt'')) \<and>
   fst (process_file (env_read_fails (ustr ''/r/a.txt''))
          (input_path_of example_root (ustr ''a.txt''))
          (output_path_of example_root (ustr ''a.txt'')) example_initial) = Inr False \<and>
   files (snd (process_file (env_read_fails (ustr ''/r/a.txt''))
          (input_path_of example_root (ustr ''a.txt''))
          (output_path_of example_root (ustr ''a.txt'')) example_initial)) =
     files example_initial \<and>
   fst (process_all (env_read_fails (ustr ''/r/a.txt'')) example_root
          (output_folder_of example_root) [ustr ''a.txt'', ustr ''b.txt''] [] example_initial) =
     Inr [ustr ''b.txt''] \<and>
   ustr ''a.txt'' \<notin> set [ustr ''b.txt'']"
proof -
  have suffix: "endswith (ustr ''.txt'') (ustr ''a.txt'')" by (simp add: batch_defs)
  have fails: "read_fails (env_read_fails (ustr ''/r/a.txt''))
                 (input_path_of example_root (ustr ''a.txt''))"
    by (simp add: batch_defs)
  from read_error_leaves_file_untouched [OF suffix disjI2, OF fails,
      of example_initial "[]"]
  obtain st' where
    "process_file (env_read_fails (ustr ''/r/a.txt''))
          (input_path_of example_root (ustr ''a.txt''))
          (output_path_of example_root (ustr ''a.txt'')) example_initial = (Inr False, st')"
    "files st' = files example_initial"
    "\<forall>rest final st''. ustr ''a.txt'' \<notin> set [] \<and> ustr ''a.txt'' \<notin> set rest \<and>
        process_all (env_read_fails (ustr ''/r/a.txt'')) example_root
          (output_folder_of example_root) (ustr ''a.txt'' # rest) [] example_initial =
          (Inr final, st'') \<longrightarrow> ustr ''a.txt'' \<notin> set final"
    by blast
  moreover have "ustr ''a.txt'' \<notin> set [ustr ''b.txt'']" by (simp add: ustr_def)
  ultimately show ?thesis using suffix fails example_read_fails_loop by simp
qed

end
